theory Spec2Isabelle
  imports Main "HOL-Library.AList"
begin

section \<open>Run status, errors and Python values\<close>

text \<open>
  The pipeline engine of \<^verbatim>\<open>neo4j_genai/experimental/pipeline/pipeline.py\<close>.
  \<^verbatim>\<open>RunStatus\<close> is the enum of the source, in its order of declaration.
\<close>

datatype RunStatus = UNKNOWN | SCHEDULED | WAITING | RUNNING | SKIP | DONE

text \<open>
  Every exception the modelled code can raise is a value. \<open>ComponentFailure\<close> stands
  for whatever a component's own \<^verbatim>\<open>run\<close> raises; \<open>KeyError\<close> and
  \<open>AttributeError\<close> are the Python built-ins, and \<open>DuplicateNameError\<close> is the
  failure of adding a node under a name already taken.
\<close>

datatype error =
    StatusUpdateError
  | MissingDependencyError
  | DefinitionError
  | KeyError
  | AttributeError
  | DuplicateNameError
  | ComponentFailure string

text \<open>
  Python values as far as the engine looks into them: \<^verbatim>\<open>None\<close>, scalars, and
  dictionaries with string keys. A dictionary is an association list with distinct keys in
  insertion order; \<open>AList.update\<close> is \<^verbatim>\<open>d[k] = v\<close> (overwrite in place, or
  append) and \<open>map_of\<close> is \<^verbatim>\<open>d.get(k)\<close>.
\<close>

datatype pyval =
    PNone
  | PInt int
  | PStr string
  | PDict "(string \<times> pyval) list"

type_synonym pydict = "(string \<times> pyval) list"

section \<open>Components and task nodes\<close>

text \<open>
  A component declares its inputs (parameter name and the \<^verbatim>\<open>has_default\<close> flag) and
  the names of its outputs, and has a \<^verbatim>\<open>run\<close> method. \<^verbatim>\<open>run\<close> either
  raises (\<open>Inl\<close> with a message) or returns a result model, given by its
  \<^verbatim>\<open>model_dump()\<close>, or \<^verbatim>\<open>None\<close>.
\<close>

record Component =
  component_inputs :: "(string \<times> bool) list"
  component_outputs :: "string list"
  run :: "pydict \<Rightarrow> string + pydict option"

record TaskPipelineNode =
  name :: string
  component :: Component
  status :: RunStatus

text \<open>\<^verbatim>\<open>RunResult\<close> without its timestamp.\<close>

record RunResult =
  rr_status :: RunStatus
  rr_result :: "pydict option"

text \<open>
  \<^verbatim>\<open>TaskPipelineNode.set_status\<close>: the two guards, in the order of the source, then
  the assignment. A raise leaves the node as it was.
\<close>

definition set_status :: "RunStatus \<Rightarrow> TaskPipelineNode \<Rightarrow> error + TaskPipelineNode" where
  "set_status s node =
     (if s = status node then Inl StatusUpdateError
      else if s = RUNNING \<and> status node = DONE then Inl StatusUpdateError
      else Inr (node\<lparr>status := s\<rparr>))"

definition read_status :: "TaskPipelineNode \<Rightarrow> RunStatus" where
  "read_status node = status node"

text \<open>
  \<^verbatim>\<open>TaskPipelineNode.execute\<close>. The result is the outcome (an exception, \<^verbatim>\<open>None\<close>
  or a \<^verbatim>\<open>RunResult\<close>), the node afterwards, and the list of keyword arguments the
  component's \<^verbatim>\<open>run\<close> was called with during this call. Only
  \<^verbatim>\<open>PipelineStatusUpdateError\<close> is caught around the first \<^verbatim>\<open>set_status\<close>.
\<close>

definition execute ::
  "TaskPipelineNode \<Rightarrow> pydict \<Rightarrow> (error + RunResult option) \<times> TaskPipelineNode \<times> pydict list" where
  "execute node kwargs =
     (case set_status RUNNING node of
        Inl e \<Rightarrow> (if e = StatusUpdateError then (Inr None, node, []) else (Inl e, node, []))
      | Inr n1 \<Rightarrow>
          (case run (component n1) kwargs of
             Inl msg \<Rightarrow> (Inl (ComponentFailure msg), n1, [kwargs])
           | Inr component_result \<Rightarrow>
               (case set_status DONE n1 of
                  Inl e \<Rightarrow> (Inl e, n1, [kwargs])
                | Inr n2 \<Rightarrow>
                    (Inr (Some \<lparr>rr_status = status n2, rr_result = component_result\<rparr>),
                     n2, [kwargs]))))"

definition reinitialize_node :: "TaskPipelineNode \<Rightarrow> TaskPipelineNode" where
  "reinitialize_node node = node\<lparr>status := SCHEDULED\<rparr>"

section \<open>The pipeline graph and the result stores\<close>

text \<open>
  An edge carries the input configuration of its end component: the value stored under
  \<^verbatim>\<open>"input_config"\<close> in the edge's data, a dictionary from parameter names to
  reference strings, or \<^verbatim>\<open>None\<close>.
\<close>

record PipelineEdge =
  edge_start :: string
  edge_end :: string
  input_config :: "(string \<times> string) list option"

text \<open>
  A pipeline is a graph of task nodes (a dictionary from names to nodes, in insertion
  order), its edges, the result store and the store of final results. The stores hold
  what \<^verbatim>\<open>on_task_complete\<close> saves: a dumped result, or \<^verbatim>\<open>None\<close>.
\<close>

record Pipeline =
  nodes :: "(string \<times> TaskPipelineNode) list"
  edges :: "PipelineEdge list"
  store :: "(string \<times> pyval) list"
  final_results :: "(string \<times> pyval) list"

text \<open>
  The graph container \<^verbatim>\<open>PipelineGraph\<close> lives in \<^verbatim>\<open>pipeline_graph.py\<close>; its
  operations follow section 4.1 of the specification.
\<close>

definition node_names :: "Pipeline \<Rightarrow> string list" where
  "node_names p = map fst (nodes p)"

text \<open>
  Modelled from the spec: \<^verbatim>\<open>PipelineGraph.get_node_by_name\<close>, the node under a name;
  a name that is absent is a lookup error, Python's \<^verbatim>\<open>KeyError\<close>, the exception that
  \<^verbatim>\<open>connect\<close> catches around \<^verbatim>\<open>add_edge\<close>.
\<close>

definition get_node_by_name :: "Pipeline \<Rightarrow> string \<Rightarrow> error + TaskPipelineNode" where
  "get_node_by_name p n = (case map_of (nodes p) n of None \<Rightarrow> Inl KeyError | Some node \<Rightarrow> Inr node)"

text \<open>
  Modelled from the spec: \<^verbatim>\<open>PipelineGraph.add_node\<close> fails with a
  duplicate-name condition if a node with that name exists, and adds the node otherwise.
\<close>

definition add_node :: "TaskPipelineNode \<Rightarrow> Pipeline \<Rightarrow> error + Pipeline" where
  "add_node node p =
     (if name node \<in> set (node_names p) then Inl DuplicateNameError
      else Inr (p\<lparr>nodes := nodes p @ [(name node, node)]\<rparr>))"

text \<open>
  Modelled from the spec: \<^verbatim>\<open>PipelineGraph.add_edge\<close> fails with a lookup error if
  either endpoint is absent; otherwise it inserts the edge, or overwrites the edge with the
  same start and end where it stands (\<open>put_edge\<close>).
\<close>

fun put_edge :: "PipelineEdge \<Rightarrow> PipelineEdge list \<Rightarrow> PipelineEdge list" where
  "put_edge e [] = [e]"
| "put_edge e (x # xs) =
     (if edge_start x = edge_start e \<and> edge_end x = edge_end e then e # xs
      else x # put_edge e xs)"

definition add_edge :: "PipelineEdge \<Rightarrow> Pipeline \<Rightarrow> error + Pipeline" where
  "add_edge e p =
     (if edge_start e \<notin> set (node_names p) \<or> edge_end e \<notin> set (node_names p) then Inl KeyError
      else Inr (p\<lparr>edges := put_edge e (edges p)\<rparr>))"

text \<open>
  Modelled from the spec: \<^verbatim>\<open>PipelineGraph.is_cyclic\<close> is true if the current nodes
  and edges contain a cycle: some node reaches itself along one or more edges.
\<close>

definition edge_pairs :: "Pipeline \<Rightarrow> (string \<times> string) list" where
  "edge_pairs p = map (\<lambda>e. (edge_start e, edge_end e)) (edges p)"

definition is_cyclic :: "Pipeline \<Rightarrow> bool" where
  "is_cyclic p = (\<exists>n \<in> set (node_names p). (n, n) \<in> (set (edge_pairs p))\<^sup>+)"

text \<open>
  Modelled from the spec: \<^verbatim>\<open>PipelineGraph.previous_edges\<close>, all edges that end at
  the given node, in insertion order.
\<close>

definition previous_edges :: "Pipeline \<Rightarrow> string \<Rightarrow> PipelineEdge list" where
  "previous_edges p n = filter (\<lambda>e. edge_end e = n) (edges p)"

text \<open>
  Modelled from the spec: \<^verbatim>\<open>PipelineGraph.next_edges\<close>, all edges that start at the
  given node, in insertion order.
\<close>

definition next_edges :: "Pipeline \<Rightarrow> string \<Rightarrow> PipelineEdge list" where
  "next_edges p n = filter (\<lambda>e. edge_start e = n) (edges p)"

text \<open>
  Modelled from the spec: \<^verbatim>\<open>PipelineGraph.roots\<close>, all nodes with no incoming edge.
\<close>

definition roots :: "Pipeline \<Rightarrow> TaskPipelineNode list" where
  "roots p = filter (\<lambda>node. previous_edges p (name node) = []) (map snd (nodes p))"

text \<open>
  Modelled from the spec: \<^verbatim>\<open>is_leaf\<close> is true if and only if the node has no
  outgoing edge.
\<close>

definition is_leaf :: "Pipeline \<Rightarrow> string \<Rightarrow> bool" where
  "is_leaf p n = (next_edges p n = [])"

text \<open>
  \<^verbatim>\<open>Pipeline.add_component\<close> wraps the component in a new node, whose status is
  \<open>UNKNOWN\<close>, and adds it.
\<close>

definition add_component :: "Component \<Rightarrow> string \<Rightarrow> Pipeline \<Rightarrow> error + Pipeline" where
  "add_component c n p = add_node \<lparr>name = n, component = c, status = UNKNOWN\<rparr> p"

text \<open>
  \<^verbatim>\<open>Pipeline.connect\<close>: the result is the outcome and the pipeline afterwards. The
  \<^verbatim>\<open>KeyError\<close> of \<^verbatim>\<open>add_edge\<close> becomes a definition error; any other
  exception would pass through. The cycle check runs on the graph that already holds the
  new edge, and raising does not take the edge out again.
\<close>

definition connect ::
  "string \<Rightarrow> string \<Rightarrow> (string \<times> string) list option \<Rightarrow> Pipeline \<Rightarrow> (error + unit) \<times> Pipeline" where
  "connect start_component_name end_component_name cfg p =
     (let edge = \<lparr>edge_start = start_component_name, edge_end = end_component_name,
                    input_config = cfg\<rparr>
      in case add_edge edge p of
           Inl e \<Rightarrow> (if e = KeyError then (Inl DefinitionError, p) else (Inl e, p))
         | Inr p' \<Rightarrow> (if is_cyclic p' then (Inl DefinitionError, p') else (Inr (), p')))"

text \<open>
  The graph invariant that \<^verbatim>\<open>add_node\<close> and \<^verbatim>\<open>add_edge\<close> maintain: names are
  unique, every node stands under its own name, and edges join existing nodes.
\<close>

definition wf_pipeline :: "Pipeline \<Rightarrow> bool" where
  "wf_pipeline p =
     (distinct (node_names p) \<and>
      (\<forall>(k, node) \<in> set (nodes p). name node = k) \<and>
      (\<forall>e \<in> set (edges p). edge_start e \<in> set (node_names p) \<and> edge_end e \<in> set (node_names p)))"

section \<open>The orchestrator: finding the next tasks\<close>

text \<open>
  \<^verbatim>\<open>Orchestrator.check_dependencies_complete\<close>: the loop over the incoming edges of
  the task, raising at the first parent whose status is not \<open>DONE\<close>.
\<close>

fun check_dependencies_loop :: "Pipeline \<Rightarrow> PipelineEdge list \<Rightarrow> error + unit" where
  "check_dependencies_loop p [] = Inr ()"
| "check_dependencies_loop p (d # ds) =
     (case get_node_by_name p (edge_start d) of
        Inl e \<Rightarrow> Inl e
      | Inr start_node \<Rightarrow>
          (if read_status start_node \<noteq> DONE then Inl MissingDependencyError
           else check_dependencies_loop p ds))"

definition check_dependencies_complete :: "Pipeline \<Rightarrow> TaskPipelineNode \<Rightarrow> error + unit" where
  "check_dependencies_complete p task = check_dependencies_loop p (previous_edges p (name task))"

text \<open>
  \<^verbatim>\<open>Orchestrator.next\<close>: the generator, as the list of the nodes it yields. A child
  that is running or done is passed over; so is a child whose dependency check raises the
  missing-dependency error, which is the only exception caught.
\<close>

fun next_loop :: "Pipeline \<Rightarrow> PipelineEdge list \<Rightarrow> error + TaskPipelineNode list" where
  "next_loop p [] = Inr []"
| "next_loop p (next_edge # rest) =
     (case get_node_by_name p (edge_end next_edge) of
        Inl e \<Rightarrow> Inl e
      | Inr next_node \<Rightarrow>
          (if read_status next_node \<in> {RUNNING, DONE} then next_loop p rest
           else
             (case check_dependencies_complete p next_node of
                Inl e \<Rightarrow> (if e = MissingDependencyError then next_loop p rest else Inl e)
              | Inr u \<Rightarrow>
                  (case next_loop p rest of
                     Inl e \<Rightarrow> Inl e
                   | Inr ns \<Rightarrow> Inr (next_node # ns)))))"

definition orchestrator_next :: "Pipeline \<Rightarrow> TaskPipelineNode \<Rightarrow> error + TaskPipelineNode list" where
  "orchestrator_next p task = next_loop p (next_edges p (name task))"

text \<open>
  The readiness of a child as the specification words it: the child is neither running
  nor done, and every predecessor of the child is done.
\<close>

definition ready :: "Pipeline \<Rightarrow> string \<Rightarrow> bool" where
  "ready p child =
     (case map_of (nodes p) child of
        None \<Rightarrow> False
      | Some node \<Rightarrow>
          status node \<noteq> RUNNING \<and> status node \<noteq> DONE \<and>
          (\<forall>d \<in> set (previous_edges p child).
             map_option status (map_of (nodes p) (edge_start d)) = Some DONE))"

section \<open>Resolving the inputs of a task\<close>

text \<open>
  Python's \<^verbatim>\<open>str.split(".")\<close>: the pieces between the dots, empty pieces included,
  so there is one piece more than there are dots.
\<close>

fun split_dot :: "string \<Rightarrow> string list" where
  "split_dot [] = [[]]"
| "split_dot (c # cs) =
     (if c = CHR ''.'' then [] # split_dot cs
      else (case split_dot cs of [] \<Rightarrow> [[c]] | w # ws \<Rightarrow> (c # w) # ws))"

text \<open>
  The dictionaries of the user's input data are objects on a heap, addressed by their
  position; the outer dictionary \<^verbatim>\<open>data\<close> maps a component name to the address of
  its dictionary. \<open>heap_get\<close> reads an object that exists.
\<close>

type_synonym addr = nat
type_synonym heap = "pydict list"
type_synonym user_data = "(string \<times> addr) list"

definition heap_alloc :: "pydict \<Rightarrow> heap \<Rightarrow> addr \<times> heap" where
  "heap_alloc d h = (length h, h @ [d])"

definition heap_get :: "heap \<Rightarrow> addr \<Rightarrow> pydict" where
  "heap_get h a = h ! a"

definition heap_set_item :: "addr \<Rightarrow> string \<Rightarrow> pyval \<Rightarrow> heap \<Rightarrow> heap" where
  "heap_set_item a k v h = h[a := AList.update k v (h ! a)]"

definition valid_data :: "user_data \<Rightarrow> heap \<Rightarrow> bool" where
  "valid_data input_data h = (\<forall>(k, a) \<in> set input_data. a < length h)"

text \<open>
  The in-memory result store lives in \<^verbatim>\<open>stores.py\<close>; its operations follow
  section 6 of the specification. A store is the dictionary it holds.
\<close>

text \<open>
  Modelled from the spec: \<^verbatim>\<open>InMemoryStore.add\<close> sets the value under the key.
\<close>

definition store_add :: "string \<Rightarrow> pyval \<Rightarrow> (string \<times> pyval) list \<Rightarrow> (string \<times> pyval) list" where
  "store_add k v st = AList.update k v st"

text \<open>
  Modelled from the spec: \<^verbatim>\<open>InMemoryStore.get\<close> returns the value under the key or
  fails with a \<^verbatim>\<open>KeyError\<close>-kind condition.
\<close>

definition store_get :: "(string \<times> pyval) list \<Rightarrow> string \<Rightarrow> error + pyval" where
  "store_get st k = (case map_of st k of None \<Rightarrow> Inl KeyError | Some v \<Rightarrow> Inr v)"

text \<open>
  Modelled from the spec: \<^verbatim>\<open>InMemoryStore.all\<close> is the snapshot of the whole store.
\<close>

definition store_all :: "(string \<times> pyval) list \<Rightarrow> (string \<times> pyval) list" where
  "store_all st = st"

text \<open>
  Modelled from the spec: \<^verbatim>\<open>InMemoryStore.empty\<close> clears the store.
\<close>

definition store_empty :: "(string \<times> pyval) list \<Rightarrow> (string \<times> pyval) list" where
  "store_empty st = []"

text \<open>\<^verbatim>\<open>Pipeline.get_results_for_component\<close> reads the result store.\<close>

definition get_results_for_component :: "Pipeline \<Rightarrow> string \<Rightarrow> error + pyval" where
  "get_results_for_component p n = store_get (store p) n"

text \<open>
  \<^verbatim>\<open>value = component_result.get(output_param)\<close>: a stored dictionary gives the field
  or \<^verbatim>\<open>None\<close>; any other stored value has no \<^verbatim>\<open>get\<close>.
\<close>

definition result_get :: "pyval \<Rightarrow> string \<Rightarrow> error + pyval" where
  "result_get component_result output_param =
     (case component_result of
        PDict d \<Rightarrow> Inr (case map_of d output_param of None \<Rightarrow> PNone | Some v \<Rightarrow> v)
      | _ \<Rightarrow> Inl AttributeError)"

text \<open>
  The body of the loop of \<^verbatim>\<open>Orchestrator.get_component_inputs\<close> for one item of the
  input configuration: unpacking the split into two names fails unless there are exactly
  two pieces, and then the whole mapping is the component name. The value it computes:
\<close>

definition mapped_value :: "Pipeline \<Rightarrow> string \<Rightarrow> error + pyval" where
  "mapped_value p mapping =
     (let (component, output_param) =
            (case split_dot mapping of
               [c, f] \<Rightarrow> (c, Some f)
             | _ \<Rightarrow> (mapping, None))
      in case get_results_for_component p component of
           Inl e \<Rightarrow> Inl e
         | Inr component_result \<Rightarrow>
             (case output_param of
                Some f \<Rightarrow> result_get component_result f
              | None \<Rightarrow> Inr component_result))"

text \<open>
  The loop itself writes into the dictionary at address \<open>a\<close>. Its result is the
  outcome, the heap afterwards and the parameters it warned about; what it wrote before a
  raise stays written.
\<close>

fun component_inputs_loop ::
  "Pipeline \<Rightarrow> addr \<Rightarrow> (string \<times> string) list \<Rightarrow> heap \<Rightarrow> string list \<Rightarrow>
     (error + unit) \<times> heap \<times> string list" where
  "component_inputs_loop p a [] h ws = (Inr (), h, ws)"
| "component_inputs_loop p a ((parameter, mapping) # rest) h ws =
     (case mapped_value p mapping of
        Inl e \<Rightarrow> (Inl e, h, ws)
      | Inr v \<Rightarrow>
          component_inputs_loop p a rest (heap_set_item a parameter v h)
            (if parameter \<in> set (map fst (heap_get h a)) then ws @ [parameter] else ws))"

text \<open>
  \<^verbatim>\<open>Orchestrator.get_component_inputs\<close>: \<^verbatim>\<open>input_data.get(component_name, {})\<close>
  is the user's own dictionary when there is one and a new empty one otherwise. The
  result is the outcome (the address of the returned dictionary), the heap and the
  warnings.
\<close>

definition get_component_inputs ::
  "Pipeline \<Rightarrow> string \<Rightarrow> (string \<times> string) list \<Rightarrow> user_data \<Rightarrow> heap \<Rightarrow>
     (error + addr) \<times> heap \<times> string list" where
  "get_component_inputs p component_name cfg input_data h =
     (let (a, h0) = (case map_of input_data component_name of
                       Some a \<Rightarrow> (a, h)
                     | None \<Rightarrow> heap_alloc [] h)
      in case component_inputs_loop p a cfg h0 [] of
           (Inl e, h1, ws) \<Rightarrow> (Inl e, h1, ws)
         | (Inr u, h1, ws) \<Rightarrow> (Inr a, h1, ws))"

section \<open>Validating the input configuration\<close>

text \<open>
  The inner loop of \<^verbatim>\<open>Pipeline.validate_inputs_config_for_task\<close> over the items of
  one edge's input configuration. A path that does not split into exactly two pieces is
  passed over; for the others the source node is looked up and a non-empty parameter name
  must be one of the outputs its component declares.
\<close>

fun validate_edge_inputs :: "Pipeline \<Rightarrow> (string \<times> string) list \<Rightarrow> error + unit" where
  "validate_edge_inputs p [] = Inr ()"
| "validate_edge_inputs p ((param, path) # rest) =
     (case split_dot path of
        [source_component_name, param_name] \<Rightarrow>
          (case get_node_by_name p source_component_name of
             Inl e \<Rightarrow> Inl e
           | Inr source_node \<Rightarrow>
               (if param_name \<noteq> [] \<and>
                   param_name \<notin> set (component_outputs (component source_node))
                then Inl DefinitionError
                else validate_edge_inputs p rest))
      | _ \<Rightarrow> validate_edge_inputs p rest)"

text \<open>
  The loop over the incoming edges: each edge's items are checked, then its parameter
  names are added to the actual inputs. \<^verbatim>\<open>edge_inputs\<close> is the edge's input
  configuration, or \<^verbatim>\<open>{}\<close> when there is none.
\<close>

definition edge_inputs :: "PipelineEdge \<Rightarrow> (string \<times> string) list" where
  "edge_inputs e = (case input_config e of None \<Rightarrow> [] | Some cfg \<Rightarrow> cfg)"

fun validate_prev_edges ::
  "Pipeline \<Rightarrow> PipelineEdge list \<Rightarrow> string list \<Rightarrow> error + string list" where
  "validate_prev_edges p [] actual_inputs = Inr actual_inputs"
| "validate_prev_edges p (e # es) actual_inputs =
     (case validate_edge_inputs p (edge_inputs e) of
        Inl err \<Rightarrow> Inl err
      | Inr u \<Rightarrow> validate_prev_edges p es (actual_inputs @ map fst (edge_inputs e)))"

definition validate_inputs_config_for_task ::
  "Pipeline \<Rightarrow> TaskPipelineNode \<Rightarrow> user_data \<Rightarrow> heap \<Rightarrow> error + bool" where
  "validate_inputs_config_for_task p task input_data h =
     (let expected_mandatory_inputs =
            map fst (filter (\<lambda>(param_name, has_default). \<not> has_default)
                       (component_inputs (component task)));
          actual_inputs =
            (case map_of input_data (name task) of
               None \<Rightarrow> []
             | Some a \<Rightarrow> map fst (heap_get h a))
      in case validate_prev_edges p (previous_edges p (name task)) actual_inputs of
           Inl err \<Rightarrow> Inl err
         | Inr actual \<Rightarrow>
             (if set expected_mandatory_inputs - set actual \<noteq> {} then Inl DefinitionError
              else Inr True))"

text \<open>\<^verbatim>\<open>Pipeline.validate_inputs_config\<close>: every task in turn, up to the first raise.\<close>

fun validate_tasks :: "Pipeline \<Rightarrow> TaskPipelineNode list \<Rightarrow> user_data \<Rightarrow> heap \<Rightarrow> error + unit" where
  "validate_tasks p [] input_data h = Inr ()"
| "validate_tasks p (task # tasks) input_data h =
     (case validate_inputs_config_for_task p task input_data h of
        Inl err \<Rightarrow> Inl err
      | Inr b \<Rightarrow> validate_tasks p tasks input_data h)"

definition validate_inputs_config :: "Pipeline \<Rightarrow> user_data \<Rightarrow> heap \<Rightarrow> error + unit" where
  "validate_inputs_config p input_data h = validate_tasks p (map snd (nodes p)) input_data h"

section \<open>Running the pipeline\<close>

text \<open>
  \<^verbatim>\<open>Orchestrator.get_input_config_for_task\<close>: every parent must be done, and the input
  configurations of the incoming edges are merged in the order of the edges, later items
  replacing earlier ones.
\<close>

fun input_config_loop ::
  "Pipeline \<Rightarrow> PipelineEdge list \<Rightarrow> (string \<times> string) list \<Rightarrow> error + (string \<times> string) list" where
  "input_config_loop p [] cfg = Inr cfg"
| "input_config_loop p (prev_edge # rest) cfg =
     (case get_node_by_name p (edge_start prev_edge) of
        Inl e \<Rightarrow> Inl e
      | Inr prev_node \<Rightarrow>
          (if read_status prev_node \<noteq> DONE then Inl MissingDependencyError
           else input_config_loop p rest
                  (fold (\<lambda>(k, v) d. AList.update k v d) (edge_inputs prev_edge) cfg)))"

definition get_input_config_for_task ::
  "Pipeline \<Rightarrow> TaskPipelineNode \<Rightarrow> error + (string \<times> string) list" where
  "get_input_config_for_task p task = input_config_loop p (previous_edges p (name task)) []"

text \<open>
  \<^verbatim>\<open>Pipeline.on_task_complete\<close> and \<^verbatim>\<open>add_result_for_component\<close>: the dumped
  result, or \<^verbatim>\<open>None\<close>, goes into the store, and into the final results when the task
  is a leaf.
\<close>

definition res_to_save :: "RunResult \<Rightarrow> pyval" where
  "res_to_save result = (case rr_result result of None \<Rightarrow> PNone | Some d \<Rightarrow> PDict d)"

definition add_result_for_component :: "string \<Rightarrow> pyval \<Rightarrow> bool \<Rightarrow> Pipeline \<Rightarrow> Pipeline" where
  "add_result_for_component n result is_final p =
     (let p1 = p\<lparr>store := store_add n result (store p)\<rparr>
      in if is_final then p1\<lparr>final_results := store_add n result (final_results p1)\<rparr> else p1)"

definition on_task_complete :: "TaskPipelineNode \<Rightarrow> RunResult \<Rightarrow> Pipeline \<Rightarrow> Pipeline" where
  "on_task_complete task result p =
     add_result_for_component (name task) (res_to_save result) (is_leaf p (name task)) p"

text \<open>
  \<^verbatim>\<open>Pipeline.reinitialize\<close> empties both stores and resets every node.
\<close>

definition reinitialize :: "Pipeline \<Rightarrow> Pipeline" where
  "reinitialize p =
     p\<lparr>store := store_empty (store p), final_results := store_empty (final_results p),
       nodes := map (\<lambda>(k, task). (k, reinitialize_node task)) (nodes p)\<rparr>"

text \<open>
  The only place where a task gives up control is the call of its component. So
  \<^verbatim>\<open>execute\<close> falls into the part before that call and the part after it; a node
  object is shared, which the model renders by writing the node back under its name.
  The second part also reports the call it has made of the component's \<^verbatim>\<open>run\<close>:
  the arguments and what came back.
\<close>

datatype begun = Rejected | Raised error | Awaiting TaskPipelineNode

definition execute_begin :: "TaskPipelineNode \<Rightarrow> begun" where
  "execute_begin node =
     (case set_status RUNNING node of
        Inl e \<Rightarrow> (if e = StatusUpdateError then Rejected else Raised e)
      | Inr n1 \<Rightarrow> Awaiting n1)"

definition execute_end ::
  "TaskPipelineNode \<Rightarrow> pydict \<Rightarrow>
     (error + RunResult) \<times> TaskPipelineNode \<times> (pydict \<times> (string + pydict option)) list" where
  "execute_end n1 kwargs =
     (let returned = run (component n1) kwargs
      in case returned of
           Inl msg \<Rightarrow> (Inl (ComponentFailure msg), n1, [(kwargs, returned)])
         | Inr component_result \<Rightarrow>
             (case set_status DONE n1 of
                Inl e \<Rightarrow> (Inl e, n1, [(kwargs, returned)])
              | Inr n2 \<Rightarrow>
                  (Inr \<lparr>rr_status = status n2, rr_result = component_result\<rparr>, n2,
                   [(kwargs, returned)])))"

definition put_node :: "TaskPipelineNode \<Rightarrow> Pipeline \<Rightarrow> Pipeline" where
  "put_node node p = p\<lparr>nodes := AList.update (name node) node (nodes p)\<rparr>"

text \<open>
  A \<^verbatim>\<open>run_task(task, data)\<close> coroutine: the run of the pipeline that created it,
  counted from one, the input data of that run, and the name of its task.
  \<^verbatim>\<open>asyncio.gather\<close> is called without cancellation, so when one coroutine of a run
  raises, the others of that run stay in flight and go on after the run has raised, also
  during later runs.
\<close>

record coroutine =
  co_run :: nat
  co_data :: user_data
  co_task :: string

text \<open>
  The state of the engine: the pipeline, the heap of the user's dictionaries, the
  coroutines that were created and have not started, the coroutines that wait for their
  component with the arguments they passed, and two logs, which start empty with every
  run: the calls of components that have come back, with the arguments and what came back,
  and the calls of \<^verbatim>\<open>on_task_complete\<close> with what was saved.
\<close>

record run_state =
  pipeline :: Pipeline
  user_heap :: heap
  pending :: "coroutine list"
  running :: "(coroutine \<times> pydict) list"
  calls :: "(coroutine \<times> pydict \<times> (string + pydict option)) list"
  completed :: "(coroutine \<times> pyval) list"

text \<open>
  \<^verbatim>\<open>Orchestrator.run_task\<close> from its start to the call of the component: the input
  configuration, the inputs, and the first part of \<^verbatim>\<open>execute\<close>. A rejected task
  ends there. When it raises, the state is the one it leaves behind.
\<close>

definition start_task :: "coroutine \<Rightarrow> run_state \<Rightarrow> error \<times> run_state + run_state" where
  "start_task c s =
     (case get_node_by_name (pipeline s) (co_task c) of
        Inl e \<Rightarrow> Inl (e, s)
      | Inr task \<Rightarrow>
     (case get_input_config_for_task (pipeline s) task of
        Inl e \<Rightarrow> Inl (e, s)
      | Inr cfg \<Rightarrow>
     (case get_component_inputs (pipeline s) (name task) cfg (co_data c) (user_heap s) of
        (Inl e, h', ws) \<Rightarrow> Inl (e, s\<lparr>user_heap := h'\<rparr>)
      | (Inr a, h', ws) \<Rightarrow>
     (case execute_begin task of
        Rejected \<Rightarrow> Inr (s\<lparr>user_heap := h'\<rparr>)
      | Raised e \<Rightarrow> Inl (e, s\<lparr>user_heap := h'\<rparr>)
      | Awaiting n1 \<Rightarrow>
          Inr (s\<lparr>pipeline := put_node n1 (pipeline s), user_heap := h',
                 running := running s @ [(c, heap_get h' a)]\<rparr>)))))"

text \<open>
  From the return of the component to the end of \<^verbatim>\<open>Orchestrator.on_task_complete\<close>:
  the second part of \<^verbatim>\<open>execute\<close>, saving the result, and creating a
  \<^verbatim>\<open>run_task\<close> coroutine, with the same data, for every node that \<^verbatim>\<open>next\<close>
  yields.
\<close>

definition finish_task :: "coroutine \<Rightarrow> pydict \<Rightarrow> run_state \<Rightarrow> error \<times> run_state + run_state" where
  "finish_task c kwargs s =
     (case get_node_by_name (pipeline s) (co_task c) of
        Inl e \<Rightarrow> Inl (e, s)
      | Inr task \<Rightarrow>
     (case execute_end task kwargs of
        (Inl e, n1, made) \<Rightarrow> Inl (e, s\<lparr>calls := calls s @ map (\<lambda>(kw, r). (c, kw, r)) made\<rparr>)
      | (Inr res, n2, made) \<Rightarrow>
          (let p2 = on_task_complete n2 res (put_node n2 (pipeline s));
               s2 = s\<lparr>pipeline := p2,
                      calls := calls s @ map (\<lambda>(kw, r). (c, kw, r)) made,
                      completed := completed s @ [(c, res_to_save res)]\<rparr>
           in case orchestrator_next p2 n2 of
                Inl e \<Rightarrow> Inl (e, s2)
              | Inr ns \<Rightarrow>
                  Inr (s2\<lparr>pending := pending s @ map (\<lambda>node. c\<lparr>co_task := name node\<rparr>) ns\<rparr>))))"

text \<open>
  A schedule says in which order the created coroutines start and the running components
  return; an event names the run and the task of the coroutine. \<open>step\<close> takes one such
  step, \<open>None\<close> when there is no such coroutine. \<open>exec\<close> follows the schedule for the
  run \<open>r\<close>: when a coroutine of that run raises, the run raises; when a coroutine left
  over from an earlier run raises, nobody waits for it and the run goes on.
\<close>

datatype event = Start nat string | Finish nat string

fun event_run :: "event \<Rightarrow> nat" where
  "event_run (Start q n) = q"
| "event_run (Finish q n) = q"

definition co_is :: "nat \<Rightarrow> string \<Rightarrow> coroutine \<Rightarrow> bool" where
  "co_is q n c = (co_run c = q \<and> co_task c = n)"

definition step :: "event \<Rightarrow> run_state \<Rightarrow> (error \<times> run_state + run_state) option" where
  "step ev s =
     (case ev of
        Start q n \<Rightarrow>
          (case find (co_is q n) (pending s) of
             None \<Rightarrow> None
           | Some c \<Rightarrow> Some (start_task c (s\<lparr>pending := remove1 c (pending s)\<rparr>)))
      | Finish q n \<Rightarrow>
          (case find (\<lambda>(c, kwargs). co_is q n c) (running s) of
             None \<Rightarrow> None
           | Some (c, kwargs) \<Rightarrow>
               Some (finish_task c kwargs (s\<lparr>running := remove1 (c, kwargs) (running s)\<rparr>))))"

fun exec :: "nat \<Rightarrow> event list \<Rightarrow> run_state \<Rightarrow> (error \<times> run_state + run_state) option" where
  "exec r [] s = Some (Inr s)"
| "exec r (ev # evs) s =
     (case step ev s of
        None \<Rightarrow> None
      | Some (Inl (e, s')) \<Rightarrow> (if event_run ev = r then Some (Inl (e, s')) else exec r evs s')
      | Some (Inr s') \<Rightarrow> exec r evs s')"

text \<open>
  A run takes the first number above those of the coroutines in flight.
  \<^verbatim>\<open>Pipeline.run\<close>
  validates, reinitializes and has \<^verbatim>\<open>Orchestrator.run\<close> create a coroutine for every
  root; it returns the snapshot of the final results when no coroutine of this run is left
  to start or to wait for, whatever is still in flight from earlier runs.
\<close>

definition next_run :: "run_state \<Rightarrow> nat" where
  "next_run s =
     Suc (fold max (map co_run (pending s) @ map (\<lambda>(c, kwargs). co_run c) (running s)) 0)"

definition begin_run :: "user_data \<Rightarrow> run_state \<Rightarrow> run_state" where
  "begin_run input_data s =
     s\<lparr>pipeline := reinitialize (pipeline s),
       pending := pending s @
         map (\<lambda>root. \<lparr>co_run = next_run s, co_data = input_data, co_task = name root\<rparr>)
           (roots (reinitialize (pipeline s))),
       calls := [], completed := []\<rparr>"

definition run_over :: "nat \<Rightarrow> run_state \<Rightarrow> bool" where
  "run_over r s =
     ((\<forall>c \<in> set (pending s). co_run c \<noteq> r) \<and> (\<forall>(c, kwargs) \<in> set (running s). co_run c \<noteq> r))"

definition orchestrator_run ::
  "nat \<Rightarrow> event list \<Rightarrow> run_state \<Rightarrow> (error \<times> run_state + run_state) option" where
  "orchestrator_run r evs s =
     (case exec r evs s of
        None \<Rightarrow> None
      | Some (Inl (e, s')) \<Rightarrow> Some (Inl (e, s'))
      | Some (Inr s') \<Rightarrow> (if run_over r s' then Some (Inr s') else None))"

definition pipeline_run ::
  "run_state \<Rightarrow> user_data \<Rightarrow> event list \<Rightarrow>
     (error \<times> run_state + (string \<times> pyval) list \<times> run_state) option" where
  "pipeline_run s input_data evs =
     (case validate_inputs_config (pipeline s) input_data (user_heap s) of
        Inl e \<Rightarrow> Some (Inl (e, s))
      | Inr u \<Rightarrow>
          (case orchestrator_run (next_run s) evs (begin_run input_data s) of
             None \<Rightarrow> None
           | Some (Inl (e, s')) \<Rightarrow> Some (Inl (e, s'))
           | Some (Inr s') \<Rightarrow> Some (Inr (store_all (final_results (pipeline s')), s'))))"

text \<open>
  Nothing is in flight; and the engine at rest with a given pipeline and heap.
\<close>

definition idle :: "run_state \<Rightarrow> bool" where
  "idle s = (pending s = [] \<and> running s = [])"

definition at_rest :: "Pipeline \<Rightarrow> heap \<Rightarrow> run_state" where
  "at_rest p h =
     \<lparr>pipeline = p, user_heap = h, pending = [], running = [], calls = [], completed = []\<rparr>"

text \<open>
  The status and the component of the node under a name; the tasks of the coroutines in
  flight; how often the component of a task has been called, counting the calls that have
  come back and the calls still awaited; and what a call that came back makes the task
  save.
\<close>

definition status_of :: "Pipeline \<Rightarrow> string \<Rightarrow> RunStatus option" where
  "status_of p n = map_option status (map_of (nodes p) n)"

definition component_of :: "Pipeline \<Rightarrow> string \<Rightarrow> Component option" where
  "component_of p n = map_option component (map_of (nodes p) n)"

definition pending_tasks :: "run_state \<Rightarrow> string list" where
  "pending_tasks s = map co_task (pending s)"

definition running_tasks :: "run_state \<Rightarrow> string list" where
  "running_tasks s = map (\<lambda>(c, kwargs). co_task c) (running s)"

definition returned_tasks :: "run_state \<Rightarrow> string list" where
  "returned_tasks s = map (\<lambda>(c, kwargs, r). co_task c) (calls s)"


definition callers :: "run_state \<Rightarrow> coroutine list" where
  "callers s = map (\<lambda>(c, kwargs, r). c) (calls s)"

definition payload :: "string + pydict option \<Rightarrow> pyval" where
  "payload r = (case r of Inr (Some d) \<Rightarrow> PDict d | _ \<Rightarrow> PNone)"

definition completed_tasks :: "run_state \<Rightarrow> (string \<times> pyval) list" where
  "completed_tasks s = map (\<lambda>(c, v). (co_task c, v)) (completed s)"

text \<open>
  What holds of every state of the run \<open>r\<close> with the data \<open>d\<close> that started with
  nothing in flight from the pipeline \<open>p0\<close>: the graph and the components are those of
  \<open>p0\<close>; every coroutine in flight belongs to this run; the tasks that wait for their
  component are the nodes whose status is \<open>RUNNING\<close>, each once; the tasks whose
  component has returned are the nodes whose status is \<open>DONE\<close>, each once; a node that
  is running or done has all its parents done; a node that is neither is about to start or
  has a parent that is not done; the final results are what the leaves that completed have
  saved; and every call in the log is the component of that task applied to the logged
  arguments, has returned, was followed by saving its payload, and was made by a coroutine
  of this run.
\<close>

definition active :: "Pipeline \<Rightarrow> string \<Rightarrow> bool" where
  "active p n = (status_of p n = Some RUNNING \<or> status_of p n = Some DONE)"

definition parents_done :: "Pipeline \<Rightarrow> Pipeline \<Rightarrow> string \<Rightarrow> bool" where
  "parents_done p0 p n = (\<forall>e \<in> set (previous_edges p0 n). status_of p (edge_start e) = Some DONE)"

definition saved_by_leaves :: "Pipeline \<Rightarrow> (string \<times> pyval) list \<Rightarrow> (string \<times> pyval) list" where
  "saved_by_leaves p0 done =
     fold (\<lambda>(n, v) st. store_add n v st) (filter (\<lambda>(n, v). is_leaf p0 n) done) []"

definition own :: "nat \<Rightarrow> user_data \<Rightarrow> coroutine \<Rightarrow> bool" where
  "own r d c = (co_run c = r \<and> co_data c = d)"

definition honest_call :: "Pipeline \<Rightarrow> coroutine \<times> pydict \<times> (string + pydict option) \<Rightarrow> bool" where
  "honest_call p0 entry =
     (case entry of (c, kwargs, r) \<Rightarrow>
        (case component_of p0 (co_task c) of
           None \<Rightarrow> False
         | Some cmpt \<Rightarrow> r = run cmpt kwargs \<and> (case r of Inl msg \<Rightarrow> False | Inr out \<Rightarrow> True)))"

definition run_inv :: "Pipeline \<Rightarrow> nat \<Rightarrow> user_data \<Rightarrow> run_state \<Rightarrow> bool" where
  "run_inv p0 r d s =
     (wf_pipeline (pipeline s) \<and>
      edges (pipeline s) = edges p0 \<and>
      node_names (pipeline s) = node_names p0 \<and>
      component_of (pipeline s) = component_of p0 \<and>
      (\<forall>c \<in> set (pending s). own r d c) \<and>
      (\<forall>c \<in> fst ` set (running s). own r d c) \<and>
      distinct (running_tasks s) \<and>
      (\<forall>n. n \<in> set (running_tasks s) \<longleftrightarrow> status_of (pipeline s) n = Some RUNNING) \<and>
      (\<forall>n. count_list (returned_tasks s) n =
            (if status_of (pipeline s) n = Some DONE then 1 else 0)) \<and>
      (\<forall>n. active (pipeline s) n \<longrightarrow> parents_done p0 (pipeline s) n) \<and>
      (\<forall>n \<in> set (node_names p0). \<not> active (pipeline s) n \<longrightarrow>
         n \<in> set (pending_tasks s) \<or> \<not> parents_done p0 (pipeline s) n) \<and>
      final_results (pipeline s) = saved_by_leaves p0 (completed_tasks s) \<and>
      (\<forall>entry \<in> set (calls s). honest_call p0 entry) \<and>
      completed s = map (\<lambda>(c, kwargs, r). (c, payload r)) (calls s) \<and>
      (\<forall>c \<in> set (callers s). own r d c))"



section \<open>The conditions of validation, as the specification words them\<close>

text \<open>
  Some task has a mandatory input (declared without a default) that is neither a key the
  user supplied for that task nor a parameter mapped on one of its incoming edges.
\<close>

definition user_keys :: "user_data \<Rightarrow> heap \<Rightarrow> string \<Rightarrow> string list" where
  "user_keys input_data h n =
     (case map_of input_data n of None \<Rightarrow> [] | Some a \<Rightarrow> map fst (heap_get h a))"

definition missing_mandatory_input :: "Pipeline \<Rightarrow> user_data \<Rightarrow> heap \<Rightarrow> bool" where
  "missing_mandatory_input p input_data h =
     (\<exists>task \<in> set (map snd (nodes p)).
        \<exists>(param_name, has_default) \<in> set (component_inputs (component task)).
          \<not> has_default \<and>
          param_name \<notin> set (user_keys input_data h (name task)) \<and>
          (\<forall>e \<in> set (previous_edges p (name task)). param_name \<notin> set (map fst (edge_inputs e))))"

text \<open>
  Some edge maps a reference \<^verbatim>\<open>component.field\<close> whose field is not among the outputs
  that the named component declares. \<open>undeclared_field\<close> takes every reference with
  exactly one dot; \<open>undeclared_named_field\<close> only those whose field is not empty.
\<close>

definition field_undeclared :: "Pipeline \<Rightarrow> string \<Rightarrow> string \<Rightarrow> bool" where
  "field_undeclared p c f =
     (case map_of (nodes p) c of
        None \<Rightarrow> True
      | Some source_node \<Rightarrow> f \<notin> set (component_outputs (component source_node)))"

definition undeclared_field :: "Pipeline \<Rightarrow> bool" where
  "undeclared_field p =
     (\<exists>e \<in> set (edges p). \<exists>(param, path) \<in> set (edge_inputs e).
        (case split_dot path of [c, f] \<Rightarrow> field_undeclared p c f | _ \<Rightarrow> False))"

definition undeclared_named_field :: "Pipeline \<Rightarrow> bool" where
  "undeclared_named_field p =
     (\<exists>e \<in> set (edges p). \<exists>(param, path) \<in> set (edge_inputs e).
        (case split_dot path of [c, f] \<Rightarrow> f \<noteq> [] \<and> field_undeclared p c f | _ \<Rightarrow> False))"

text \<open>Every reference with exactly one dot names a component of the pipeline.\<close>

definition references_known :: "Pipeline \<Rightarrow> bool" where
  "references_known p =
     (\<forall>e \<in> set (edges p). \<forall>(param, path) \<in> set (edge_inputs e).
        (case split_dot path of [c, f] \<Rightarrow> c \<in> set (node_names p) | _ \<Rightarrow> True))"

text \<open>
  The same conditions for one item of an input configuration and for one task, as the
  loops of the validation meet them.
\<close>

definition bad_item :: "Pipeline \<Rightarrow> string \<times> string \<Rightarrow> bool" where
  "bad_item p item =
     (case split_dot (snd item) of [c, f] \<Rightarrow> f \<noteq> [] \<and> field_undeclared p c f | _ \<Rightarrow> False)"

definition known_item :: "Pipeline \<Rightarrow> string \<times> string \<Rightarrow> bool" where
  "known_item p item =
     (case split_dot (snd item) of [c, f] \<Rightarrow> c \<in> set (node_names p) | _ \<Rightarrow> True)"

definition task_bad_edge :: "Pipeline \<Rightarrow> TaskPipelineNode \<Rightarrow> bool" where
  "task_bad_edge p task =
     (\<exists>e \<in> set (previous_edges p (name task)). \<exists>item \<in> set (edge_inputs e). bad_item p item)"

definition task_missing :: "Pipeline \<Rightarrow> user_data \<Rightarrow> heap \<Rightarrow> TaskPipelineNode \<Rightarrow> bool" where
  "task_missing p input_data h task =
     (\<exists>(param_name, has_default) \<in> set (component_inputs (component task)).
          \<not> has_default \<and>
          param_name \<notin> set (user_keys input_data h (name task)) \<and>
          (\<forall>e \<in> set (previous_edges p (name task)). param_name \<notin> set (map fst (edge_inputs e))))"

definition empty_pipeline :: "Pipeline" where
  "empty_pipeline = \<lparr>nodes = [], edges = [], store = [], final_results = []\<rparr>"

text \<open>
  Concrete nodes and components for the examples: \<open>const_component\<close> declares the given
  inputs and outputs and returns the same result for every input; \<open>failing_component\<close>
  always raises.
\<close>

definition const_component :: "(string \<times> bool) list \<Rightarrow> string list \<Rightarrow> pydict option \<Rightarrow> Component" where
  "const_component ins outs res =
     \<lparr>component_inputs = ins, component_outputs = outs, run = (\<lambda>kwargs. Inr res)\<rparr>"


definition task_node :: "string \<Rightarrow> Component \<Rightarrow> RunStatus \<Rightarrow> TaskPipelineNode" where
  "task_node n c s = \<lparr>name = n, component = c, status = s\<rparr>"

text \<open>Three unconnected components \<open>A\<close>, \<open>B\<close> and \<open>C\<close>.\<close>

definition abc_pipeline :: "Pipeline" where
  "abc_pipeline =
     \<lparr>nodes = [(''A'', task_node ''A'' (const_component [] [] None) UNKNOWN),
               (''B'', task_node ''B'' (const_component [] [] None) UNKNOWN),
               (''C'', task_node ''C'' (const_component [] [] None) UNKNOWN)],
      edges = [], store = [], final_results = []\<rparr>"

definition edge :: "string \<Rightarrow> string \<Rightarrow> PipelineEdge" where
  "edge a b = \<lparr>edge_start = a, edge_end = b, input_config = None\<rparr>"

text \<open>
  A producer \<open>P1\<close> with the output \<open>y\<close> and a consumer \<open>P2\<close> with the mandatory
  input \<open>x\<close>, joined by an edge with the given input configuration; the store holds the
  given results.
\<close>

definition p1p2_pipeline :: "(string \<times> string) list \<Rightarrow> (string \<times> pyval) list \<Rightarrow> Pipeline" where
  "p1p2_pipeline cfg st =
     \<lparr>nodes = [(''P1'', task_node ''P1'' (const_component [] [''y''] (Some [(''y'', PInt 5)])) DONE),
               (''P2'', task_node ''P2'' (const_component [(''x'', False)] [] None) SCHEDULED)],
      edges = [\<lparr>edge_start = ''P1'', edge_end = ''P2'', input_config = Some cfg\<rparr>],
      store = st, final_results = []\<rparr>"

text \<open>
  Two parents \<open>A\<close> and \<open>B\<close> of \<open>C\<close>, and a second child \<open>D\<close> of \<open>A\<close>,
  with the statuses given for \<open>B\<close>, \<open>C\<close> and \<open>D\<close>; \<open>A\<close> is done.
\<close>

definition fork_pipeline :: "RunStatus \<Rightarrow> RunStatus \<Rightarrow> RunStatus \<Rightarrow> Pipeline" where
  "fork_pipeline sb sc sd =
     \<lparr>nodes = [(''A'', task_node ''A'' (const_component [] [] None) DONE),
               (''B'', task_node ''B'' (const_component [] [] None) sb),
               (''C'', task_node ''C'' (const_component [] [] None) sc),
               (''D'', task_node ''D'' (const_component [] [] None) sd)],
      edges = [edge ''A'' ''C'', edge ''B'' ''C'', edge ''A'' ''D''],
      store = [], final_results = []\<rparr>"

text \<open>
  Two roots \<open>A\<close> and \<open>B\<close> and their consumer \<open>C\<close>, which maps \<open>x\<close> from the
  output \<open>y\<close> of \<open>A\<close> and \<open>z\<close> from the whole result of \<open>B\<close>; the stores hold the
  leftovers of an earlier run.
\<close>

definition join_pipeline :: "Pipeline" where
  "join_pipeline =
     \<lparr>nodes = [(''A'', task_node ''A'' (const_component [] [''y''] (Some [(''y'', PInt 5)])) DONE),
               (''B'', task_node ''B'' (const_component [] [''y''] (Some [(''y'', PInt 7)])) DONE),
               (''C'', task_node ''C'' (const_component [(''x'', False)] [''r''] (Some [(''r'', PInt 1)])) DONE)],
      edges = [\<lparr>edge_start = ''A'', edge_end = ''C'', input_config = Some [(''x'', ''A.y'')]\<rparr>,
               \<lparr>edge_start = ''B'', edge_end = ''C'', input_config = Some [(''z'', ''B'')]\<rparr>],
      store = [(''old'', PInt 0)], final_results = [(''old'', PInt 0)]\<rparr>"





section \<open>Status transitions\<close>

text \<open>
  C1. \<^verbatim>\<open>set_status(s)\<close> raises the status-update error when \<open>s\<close> is the node's
  current status, whatever that status is, and when \<open>s\<close> is \<open>RUNNING\<close> while the
  node is \<open>DONE\<close>; every other pair of current and new status succeeds and leaves the
  node with status \<open>s\<close> and nothing else changed.
\<close>

theorem set_status_transitions:
  "(s = status node \<longrightarrow> set_status s node = Inl StatusUpdateError) \<and>
   (s = RUNNING \<and> status node = DONE \<longrightarrow> set_status s node = Inl StatusUpdateError) \<and>
   (s \<noteq> status node \<and> \<not> (s = RUNNING \<and> status node = DONE) \<longrightarrow>
      (\<exists>node'. set_status s node = Inr node' \<and> status node' = s \<and>
         name node' = name node \<and> component node' = component node))"
  by (simp add: set_status_def)

theorem set_status_transitions_witness:
  "set_status DONE (task_node ''a'' (const_component [] [] None) DONE) = Inl StatusUpdateError \<and>
   set_status RUNNING (task_node ''a'' (const_component [] [] None) DONE) = Inl StatusUpdateError \<and>
   (\<exists>node'. set_status DONE (task_node ''a'' (const_component [] [] None) RUNNING) = Inr node' \<and>
      status node' = DONE)"
  using set_status_transitions [of DONE "task_node ''a'' (const_component [] [] None) DONE"]
    set_status_transitions [of RUNNING "task_node ''a'' (const_component [] [] None) DONE"]
    set_status_transitions [of DONE "task_node ''a'' (const_component [] [] None) RUNNING"]
  by (auto simp: task_node_def)

section \<open>Executing a task\<close>



section \<open>Connecting components\<close>

lemma put_edge_member: "e \<in> set (put_edge e xs)"
  by (induction xs) auto

lemma set_put_edge_subset: "set (put_edge e xs) \<subseteq> insert e (set xs)"
  by (induction xs) auto

lemma is_cyclic_two_cycle: "is_cyclic (abc_pipeline\<lparr>edges := [edge ''A'' ''B'', edge ''B'' ''A'']\<rparr>)"
  by code_simp

lemma is_cyclic_chain: "\<not> is_cyclic (abc_pipeline\<lparr>edges := [edge ''A'' ''B'', edge ''B'' ''C'']\<rparr>)"
  by code_simp

text \<open>
  C4. \<^verbatim>\<open>connect\<close> does not raise when both names are in the pipeline and the graph
  with the new edge is acyclic; it raises the definition error, and leaves the pipeline as
  it was, when either name is absent; it raises the definition error when the graph with
  the new edge is cyclic, and then the pipeline it leaves behind still holds the new edge.
\<close>

theorem connect_behaviour:
  "(a \<in> set (node_names p) \<and> b \<in> set (node_names p) \<and>
      \<not> is_cyclic (p\<lparr>edges := put_edge \<lparr>edge_start = a, edge_end = b, input_config = cfg\<rparr> (edges p)\<rparr>) \<longrightarrow>
        connect a b cfg p =
          (Inr (), p\<lparr>edges := put_edge \<lparr>edge_start = a, edge_end = b, input_config = cfg\<rparr> (edges p)\<rparr>)) \<and>
   (a \<notin> set (node_names p) \<or> b \<notin> set (node_names p) \<longrightarrow>
        connect a b cfg p = (Inl DefinitionError, p)) \<and>
   (a \<in> set (node_names p) \<and> b \<in> set (node_names p) \<and>
      is_cyclic (p\<lparr>edges := put_edge \<lparr>edge_start = a, edge_end = b, input_config = cfg\<rparr> (edges p)\<rparr>) \<longrightarrow>
        connect a b cfg p =
          (Inl DefinitionError,
           p\<lparr>edges := put_edge \<lparr>edge_start = a, edge_end = b, input_config = cfg\<rparr> (edges p)\<rparr>) \<and>
        \<lparr>edge_start = a, edge_end = b, input_config = cfg\<rparr> \<in> set (edges (snd (connect a b cfg p))))"
  by (simp add: connect_def add_edge_def put_edge_member)

theorem connect_behaviour_witness:
  "connect ''B'' ''C'' None (abc_pipeline\<lparr>edges := [edge ''A'' ''B'']\<rparr>) =
     (Inr (), abc_pipeline\<lparr>edges := [edge ''A'' ''B'', edge ''B'' ''C'']\<rparr>) \<and>
   connect ''A'' ''Z'' None abc_pipeline = (Inl DefinitionError, abc_pipeline) \<and>
   connect ''B'' ''A'' None (abc_pipeline\<lparr>edges := [edge ''A'' ''B'']\<rparr>) =
     (Inl DefinitionError, abc_pipeline\<lparr>edges := [edge ''A'' ''B'', edge ''B'' ''A'']\<rparr>) \<and>
   edge ''B'' ''A'' \<in> set (edges (snd (connect ''B'' ''A'' None (abc_pipeline\<lparr>edges := [edge ''A'' ''B'']\<rparr>))))"
proof -
  have names: "node_names (abc_pipeline\<lparr>edges := es\<rparr>) = [''A'', ''B'', ''C'']" for es
    by (simp add: node_names_def abc_pipeline_def)
  have names0: "node_names abc_pipeline = [''A'', ''B'', ''C'']"
    by (simp add: node_names_def abc_pipeline_def)
  have e1: "(abc_pipeline\<lparr>edges := [edge ''A'' ''B'']\<rparr>)
      \<lparr>edges := put_edge \<lparr>edge_start = ''B'', edge_end = ''C'', input_config = None\<rparr>
         (edges (abc_pipeline\<lparr>edges := [edge ''A'' ''B'']\<rparr>))\<rparr> =
      abc_pipeline\<lparr>edges := [edge ''A'' ''B'', edge ''B'' ''C'']\<rparr>"
    by (simp add: edge_def)
  have e2: "(abc_pipeline\<lparr>edges := [edge ''A'' ''B'']\<rparr>)
      \<lparr>edges := put_edge \<lparr>edge_start = ''B'', edge_end = ''A'', input_config = None\<rparr>
         (edges (abc_pipeline\<lparr>edges := [edge ''A'' ''B'']\<rparr>))\<rparr> =
      abc_pipeline\<lparr>edges := [edge ''A'' ''B'', edge ''B'' ''A'']\<rparr>"
    by (simp add: edge_def)
  show ?thesis
    using connect_behaviour [of "''B''" "abc_pipeline\<lparr>edges := [edge ''A'' ''B'']\<rparr>" "''C''" None]
      connect_behaviour [of "''A''" abc_pipeline "''Z''" None]
      connect_behaviour [of "''B''" "abc_pipeline\<lparr>edges := [edge ''A'' ''B'']\<rparr>" "''A''" None]
      is_cyclic_two_cycle is_cyclic_chain
    unfolding e1 e2 names names0 by auto
qed

section \<open>Successor readiness\<close>

lemma wf_empty_pipeline: "wf_pipeline empty_pipeline"
  by (simp add: wf_pipeline_def empty_pipeline_def node_names_def)

lemma wf_add_component:
  "wf_pipeline p \<Longrightarrow> add_component c n p = Inr p' \<Longrightarrow> wf_pipeline p'"
  by (auto simp: wf_pipeline_def add_component_def add_node_def node_names_def split: if_splits)

lemma node_names_edges: "node_names (p\<lparr>edges := es\<rparr>) = node_names p"
  by (simp add: node_names_def)

lemma put_edge_cases: "x \<in> set (put_edge e xs) \<Longrightarrow> x = e \<or> x \<in> set xs"
  using set_put_edge_subset [of e xs] by auto

lemma wf_connect: "wf_pipeline p \<Longrightarrow> wf_pipeline (snd (connect a b cfg p))"
proof -
  assume wf: "wf_pipeline p"
  have "wf_pipeline (p\<lparr>edges := put_edge \<lparr>edge_start = a, edge_end = b, input_config = cfg\<rparr> (edges p)\<rparr>)"
    if "a \<in> set (node_names p)" "b \<in> set (node_names p)"
    unfolding wf_pipeline_def
  proof (intro conjI ballI)
    fix e
    assume "e \<in> set (edges (p\<lparr>edges := put_edge \<lparr>edge_start = a, edge_end = b, input_config = cfg\<rparr> (edges p)\<rparr>))"
    then have "e = \<lparr>edge_start = a, edge_end = b, input_config = cfg\<rparr> \<or> e \<in> set (edges p)"
      using put_edge_cases by simp
    then show "edge_start e \<in> set (node_names (p\<lparr>edges := put_edge \<lparr>edge_start = a, edge_end = b, input_config = cfg\<rparr> (edges p)\<rparr>))"
      and "edge_end e \<in> set (node_names (p\<lparr>edges := put_edge \<lparr>edge_start = a, edge_end = b, input_config = cfg\<rparr> (edges p)\<rparr>))"
      using wf that by (auto simp: wf_pipeline_def node_names_edges)
  qed (use wf in \<open>auto simp: wf_pipeline_def node_names_edges\<close>)
  with wf show ?thesis
    by (auto simp: connect_def add_edge_def)
qed

lemma get_node_by_name_wf:
  "wf_pipeline p \<Longrightarrow> n \<in> set (node_names p) \<Longrightarrow>
     \<exists>node. map_of (nodes p) n = Some node \<and> get_node_by_name p n = Inr node \<and> name node = n"
  unfolding wf_pipeline_def node_names_def get_node_by_name_def
  by (cases "map_of (nodes p) n") (auto simp: map_of_eq_None_iff dest!: map_of_SomeD)

lemma check_dependencies_loop_wf:
  "wf_pipeline p \<Longrightarrow> \<forall>d \<in> set ds. edge_start d \<in> set (node_names p) \<Longrightarrow>
     check_dependencies_loop p ds =
       (if \<forall>d \<in> set ds. map_option status (map_of (nodes p) (edge_start d)) = Some DONE
        then Inr () else Inl MissingDependencyError)"
proof (induction ds)
  case Nil
  then show ?case by simp
next
  case (Cons d ds)
  from get_node_by_name_wf [OF Cons.prems(1), of "edge_start d"] Cons.prems(2)
  obtain node where "map_of (nodes p) (edge_start d) = Some node"
    "get_node_by_name p (edge_start d) = Inr node" by auto
  with Cons show ?case by (auto simp: read_status_def)
qed

lemma previous_edges_wf:
  "wf_pipeline p \<Longrightarrow> \<forall>d \<in> set (previous_edges p n). edge_start d \<in> set (node_names p)"
  by (auto simp: wf_pipeline_def previous_edges_def)

lemma next_loop_wf:
  "wf_pipeline p \<Longrightarrow> \<forall>e \<in> set es. edge_end e \<in> set (node_names p) \<Longrightarrow>
     \<exists>ns. next_loop p es = Inr ns \<and>
       map Some ns = map (map_of (nodes p)) (filter (ready p) (map edge_end es))"
proof (induction es)
  case Nil
  then show ?case by simp
next
  case (Cons e es)
  from get_node_by_name_wf [OF Cons.prems(1), of "edge_end e"] Cons.prems(2)
  obtain node where node: "map_of (nodes p) (edge_end e) = Some node"
    "get_node_by_name p (edge_end e) = Inr node" "name node = edge_end e" by auto
  from Cons obtain ns where ns: "next_loop p es = Inr ns"
    "map Some ns = map (map_of (nodes p)) (filter (ready p) (map edge_end es))" by auto
  define deps_done where "deps_done =
       (\<forall>d \<in> set (previous_edges p (edge_end e)).
             map_option status (map_of (nodes p) (edge_start d)) = Some DONE)"
  have deps: "check_dependencies_complete p node =
       (if deps_done then Inr () else Inl MissingDependencyError)"
    unfolding check_dependencies_complete_def node(3) deps_done_def
    by (rule check_dependencies_loop_wf [OF Cons.prems(1) previous_edges_wf [OF Cons.prems(1)]])
  have rdy: "ready p (edge_end e) =
       (status node \<noteq> RUNNING \<and> status node \<noteq> DONE \<and> deps_done)"
    by (simp add: ready_def node(1) deps_done_def)
  show ?case
    using node(1,2) ns deps rdy by (simp add: read_status_def)
qed

text \<open>
  C3. In a well-formed pipeline \<^verbatim>\<open>next(task)\<close> raises nothing and yields, in the order
  of the outgoing edges of the task, exactly the children that are ready: those whose
  status is neither \<open>RUNNING\<close> nor \<open>DONE\<close> and whose predecessors all read
  \<open>DONE\<close>. A child that fails either check is left out and the other children are not
  affected.
\<close>

theorem next_yields_ready_children:
  assumes "wf_pipeline p"
  shows "\<exists>ns. orchestrator_next p task = Inr ns \<and>
           map Some ns =
             map (map_of (nodes p)) (filter (ready p) (map edge_end (next_edges p (name task))))"
  unfolding orchestrator_next_def
  by (rule next_loop_wf [OF assms]) (use assms in \<open>auto simp: wf_pipeline_def next_edges_def\<close>)

lemmas fork_defs =
  fork_pipeline_def task_node_def edge_def node_names_def next_edges_def previous_edges_def ready_def

theorem next_yields_ready_children_witness:
  "wf_pipeline (fork_pipeline DONE SCHEDULED RUNNING) \<and>
   orchestrator_next (fork_pipeline DONE SCHEDULED RUNNING)
       (task_node ''A'' (const_component [] [] None) DONE) =
     Inr [task_node ''C'' (const_component [] [] None) SCHEDULED] \<and>
   wf_pipeline (fork_pipeline RUNNING SCHEDULED UNKNOWN) \<and>
   orchestrator_next (fork_pipeline RUNNING SCHEDULED UNKNOWN)
       (task_node ''A'' (const_component [] [] None) DONE) =
     Inr [task_node ''D'' (const_component [] [] None) UNKNOWN]"
proof -
  have wf: "wf_pipeline (fork_pipeline sb sc sd)" for sb sc sd
    by (simp add: wf_pipeline_def fork_defs)
  have r1: "map (map_of (nodes (fork_pipeline DONE SCHEDULED RUNNING)))
      (filter (ready (fork_pipeline DONE SCHEDULED RUNNING))
        (map edge_end (next_edges (fork_pipeline DONE SCHEDULED RUNNING)
           (name (task_node ''A'' (const_component [] [] None) DONE))))) =
      [Some (task_node ''C'' (const_component [] [] None) SCHEDULED)]"
    by (simp add: fork_defs)
  have r2: "map (map_of (nodes (fork_pipeline RUNNING SCHEDULED UNKNOWN)))
      (filter (ready (fork_pipeline RUNNING SCHEDULED UNKNOWN))
        (map edge_end (next_edges (fork_pipeline RUNNING SCHEDULED UNKNOWN)
           (name (task_node ''A'' (const_component [] [] None) DONE))))) =
      [Some (task_node ''D'' (const_component [] [] None) UNKNOWN)]"
    by (simp add: fork_defs)
  show ?thesis
    using next_yields_ready_children
        [OF wf [of DONE SCHEDULED RUNNING], of "task_node ''A'' (const_component [] [] None) DONE"]
      next_yields_ready_children
        [OF wf [of RUNNING SCHEDULED UNKNOWN], of "task_node ''A'' (const_component [] [] None) DONE"]
      wf
    unfolding r1 r2 by auto
qed

section \<open>Input resolution\<close>

lemma split_dot_nonempty: "split_dot s \<noteq> []"
  by (induction s) (auto split: list.splits)

lemma split_dot_no_dot: "CHR ''.'' \<notin> set s \<Longrightarrow> split_dot s = [s]"
  by (induction s) auto


lemma length_split_dot: "length (split_dot s) = Suc (count_list s (CHR ''.''))"
  by (induction s) (auto split: list.splits simp: split_dot_nonempty)


lemma split_dot_many:
  assumes "2 \<le> count_list m (CHR ''.'')"
  shows "(case split_dot m of [c, f] \<Rightarrow> g c f | _ \<Rightarrow> d) = d"
proof -
  have "3 \<le> length (split_dot m)" using assms by (simp add: length_split_dot)
  then show ?thesis by (auto split: list.splits)
qed

lemma split_dot_bare:
  "CHR ''.'' \<notin> set m \<Longrightarrow> (case split_dot m of [c, f] \<Rightarrow> g c f | _ \<Rightarrow> d) = d"
  by (simp add: split_dot_no_dot)

lemma keys_update: "fst ` set (AList.update k v al) = insert k (fst ` set al)"
  by (induction al) auto

lemma component_inputs_loop_ok:
  assumes "a < length h" "distinct (map fst cfg)"
    and "\<forall>(param, m) \<in> set cfg. \<exists>v. mapped_value p m = Inr v"
  shows "\<exists>h'. component_inputs_loop p a cfg h ws =
            (Inr (), h', ws @ filter (\<lambda>k. k \<in> set (map fst (h ! a))) (map fst cfg)) \<and>
          length h' = length h \<and> (\<forall>b. b \<noteq> a \<longrightarrow> h' ! b = h ! b) \<and>
          (\<forall>param m. (param, m) \<in> set cfg \<longrightarrow>
             (\<exists>v. mapped_value p m = Inr v \<and> map_of (h' ! a) param = Some v)) \<and>
          (\<forall>k. k \<notin> set (map fst cfg) \<longrightarrow> map_of (h' ! a) k = map_of (h ! a) k) \<and>
          set (map fst (h' ! a)) = set (map fst (h ! a)) \<union> set (map fst cfg)"
  using assms
proof (induction cfg arbitrary: h ws)
  case Nil
  then show ?case by simp
next
  case (Cons pm rest)
  obtain param m where pm: "pm = (param, m)" by (cases pm)
  from Cons.prems(3) pm obtain v where v: "mapped_value p m = Inr v" by auto
  let ?h1 = "heap_set_item a param v h"
  let ?ws1 = "if param \<in> set (map fst (heap_get h a)) then ws @ [param] else ws"
  have len: "a < length ?h1" using Cons.prems(1) by (simp add: heap_set_item_def)
  have h1a: "?h1 ! a = AList.update param v (h ! a)"
    using Cons.prems(1) by (simp add: heap_set_item_def)
  have dist: "distinct (map fst rest)" "param \<notin> set (map fst rest)"
    using Cons.prems(2) pm by auto
  have res: "\<forall>(param, m) \<in> set rest. \<exists>v. mapped_value p m = Inr v"
    using Cons.prems(3) by auto
  from Cons.IH [OF len dist(1) res, of ?ws1]
  obtain h' where h':
    "component_inputs_loop p a rest ?h1 ?ws1 =
       (Inr (), h', ?ws1 @ filter (\<lambda>k. k \<in> set (map fst (?h1 ! a))) (map fst rest))"
    "length h' = length ?h1" "\<forall>b. b \<noteq> a \<longrightarrow> h' ! b = ?h1 ! b"
    "\<forall>param m. (param, m) \<in> set rest \<longrightarrow>
       (\<exists>v. mapped_value p m = Inr v \<and> map_of (h' ! a) param = Some v)"
    "\<forall>k. k \<notin> set (map fst rest) \<longrightarrow> map_of (h' ! a) k = map_of (?h1 ! a) k"
    "set (map fst (h' ! a)) = set (map fst (?h1 ! a)) \<union> set (map fst rest)"
    by blast
  have filt: "filter (\<lambda>k. k \<in> set (map fst (?h1 ! a))) (map fst rest) =
              filter (\<lambda>k. k \<in> set (map fst (h ! a))) (map fst rest)"
    using dist(2) by (intro filter_cong) (auto simp: h1a keys_update)
  have eq: "component_inputs_loop p a (pm # rest) h ws =
      (Inr (), h', ws @ filter (\<lambda>k. k \<in> set (map fst (h ! a))) (map fst (pm # rest)))"
    using h'(1) v pm filt by (simp add: heap_get_def)
  have p1: "map_of (h' ! a) param = Some v"
    using h'(5) dist(2) by (simp add: h1a update_conv')
  show ?case
  proof (intro exI [of _ h'] conjI allI impI)
    show "component_inputs_loop p a (pm # rest) h ws =
      (Inr (), h', ws @ filter (\<lambda>k. k \<in> set (map fst (h ! a))) (map fst (pm # rest)))"
      by (rule eq)
    show "length h' = length h" using h'(2) by (simp add: heap_set_item_def)
    show "h' ! b = h ! b" if "b \<noteq> a" for b
      using h'(3) that by (simp add: heap_set_item_def)
    show "\<exists>v. mapped_value p m' = Inr v \<and> map_of (h' ! a) param' = Some v"
      if "(param', m') \<in> set (pm # rest)" for param' m'
      using that h'(4) p1 v pm by auto
    show "map_of (h' ! a) k = map_of (h ! a) k" if "k \<notin> set (map fst (pm # rest))" for k
      using that h'(5) pm by (simp add: h1a update_conv')
    show "set (map fst (h' ! a)) = set (map fst (h ! a)) \<union> set (map fst (pm # rest))"
      using h'(6) pm by (auto simp: h1a keys_update)
  qed
qed


lemma get_component_inputs_ok:
  assumes "valid_data input_data h" "distinct (map fst cfg)"
    and "\<forall>(param, m) \<in> set cfg. \<exists>v. mapped_value p m = Inr v"
  shows "\<exists>a h0 h'.
          (a, h0) = (case map_of input_data n of Some a \<Rightarrow> (a, h) | None \<Rightarrow> heap_alloc [] h) \<and>
          get_component_inputs p n cfg input_data h =
            (Inr a, h', filter (\<lambda>k. k \<in> set (map fst (h0 ! a))) (map fst cfg)) \<and>
          length h' = length h0 \<and> (\<forall>b. b \<noteq> a \<longrightarrow> h' ! b = h0 ! b) \<and>
          (\<forall>param m. (param, m) \<in> set cfg \<longrightarrow>
             (\<exists>v. mapped_value p m = Inr v \<and> map_of (h' ! a) param = Some v)) \<and>
          (\<forall>k. k \<notin> set (map fst cfg) \<longrightarrow> map_of (h' ! a) k = map_of (h0 ! a) k)"
proof -
  obtain a h0 where ah: "(a, h0) = (case map_of input_data n of Some a \<Rightarrow> (a, h) | None \<Rightarrow> heap_alloc [] h)"
    by (metis surj_pair)
  have "a < length h0"
  proof (cases "map_of input_data n")
    case None
    with ah show ?thesis by (simp add: heap_alloc_def)
  next
    case (Some a0)
    then have "(n, a0) \<in> set input_data" by (rule map_of_SomeD)
    with assms(1) Some ah show ?thesis by (auto simp: valid_data_def)
  qed
  from component_inputs_loop_ok [OF this assms(2,3), of "[]"]
  obtain h' where h':
    "component_inputs_loop p a cfg h0 [] =
       (Inr (), h', [] @ filter (\<lambda>k. k \<in> set (map fst (h0 ! a))) (map fst cfg))"
    "length h' = length h0" "\<forall>b. b \<noteq> a \<longrightarrow> h' ! b = h0 ! b"
    "\<forall>param m. (param, m) \<in> set cfg \<longrightarrow>
       (\<exists>v. mapped_value p m = Inr v \<and> map_of (h' ! a) param = Some v)"
    "\<forall>k. k \<notin> set (map fst cfg) \<longrightarrow> map_of (h' ! a) k = map_of (h0 ! a) k"
    by blast
  have "get_component_inputs p n cfg input_data h =
          (Inr a, h', filter (\<lambda>k. k \<in> set (map fst (h0 ! a))) (map fst cfg))"
    unfolding get_component_inputs_def ah [symmetric] using h'(1) by simp
  with ah h'(2-5) show ?thesis by blast
qed


lemmas p1p2_defs =
  p1p2_pipeline_def task_node_def const_component_def get_results_for_component_def store_get_def
  mapped_value_def result_get_def get_component_inputs_def heap_get_def heap_set_item_def
  heap_alloc_def valid_data_def


text \<open>
  C9. When the user's data has a dictionary for the component, the dictionary that
  \<^verbatim>\<open>get_component_inputs\<close> returns is that very object: no object is allocated, every
  other object is untouched, and after the call the user's dictionary holds the resolved
  value under every mapped parameter.
\<close>

theorem get_component_inputs_mutates_user_data:
  assumes "map_of input_data n = Some a0" and "valid_data input_data h"
    and "cfg \<noteq> []" and "distinct (map fst cfg)"
    and "\<forall>(param, m) \<in> set cfg. \<exists>v. mapped_value p m = Inr v"
  shows "\<exists>h' ws. get_component_inputs p n cfg input_data h = (Inr a0, h', ws) \<and>
           length h' = length h \<and>
           (\<forall>b. b \<noteq> a0 \<longrightarrow> heap_get h' b = heap_get h b) \<and>
           (\<forall>param m. (param, m) \<in> set cfg \<longrightarrow>
              (\<exists>v. mapped_value p m = Inr v \<and> map_of (heap_get h' a0) param = Some v))"
proof -
  from get_component_inputs_ok [OF assms(2,4,5), of n] assms(1)
  show ?thesis unfolding heap_get_def by auto
qed

theorem get_component_inputs_mutates_user_data_witness:
  "map_of [(''P2'', 0)] ''P2'' = Some (0::nat) \<and>
   valid_data [(''P2'', 0)] [[(''k'', PInt 2)]] \<and>
   get_component_inputs (p1p2_pipeline [(''x'', ''P1.y'')] [(''P1'', PDict [(''y'', PInt 5)])])
       ''P2'' [(''x'', ''P1.y'')] [(''P2'', 0)] [[(''k'', PInt 2)]] =
     (Inr 0, [[(''k'', PInt 2), (''x'', PInt 5)]], []) \<and>
   heap_get [[(''k'', PInt 2), (''x'', PInt 5)]] 0 \<noteq> heap_get [[(''k'', PInt 2)]] 0"
proof -
  have 1: "map_of [(''P2'', 0)] ''P2'' = Some (0::nat)" by simp
  have 2: "valid_data [(''P2'', 0)] [[(''k'', PInt 2)]]" by (simp add: valid_data_def)
  have 3: "[(''x'', ''P1.y'')] \<noteq> []" by simp
  have 4: "distinct (map fst [(''x'', ''P1.y'')])" by simp
  have 5: "\<forall>(param, m) \<in> set [(''x'', ''P1.y'')].
      \<exists>v. mapped_value (p1p2_pipeline [(''x'', ''P1.y'')] [(''P1'', PDict [(''y'', PInt 5)])]) m = Inr v"
    by (simp add: p1p2_defs)
  show ?thesis
    using get_component_inputs_mutates_user_data [OF 1 2 3 4 5] 1 2
    by (simp add: p1p2_defs)
qed

text \<open>
  The same at the level of a whole run: the user supplies \<open>k\<close> for \<open>C\<close>, and after
  the run the user's dictionary also holds the two mapped inputs of \<open>C\<close>.
\<close>

lemma run_mutates_user_data:
  "case pipeline_run (at_rest join_pipeline [[(''k'', PInt 3)]]) [(''C'', 0)]
          [Start 1 ''A'', Start 1 ''B'', Finish 1 ''B'', Finish 1 ''A'', Start 1 ''C'',
           Finish 1 ''C''] of
     Some (Inr (result, s)) \<Rightarrow>
       heap_get (user_heap s) 0 = [(''k'', PInt 3), (''x'', PInt 5), (''z'', PDict [(''y'', PInt 7)])]
   | _ \<Rightarrow> False"
  by code_simp



section \<open>Validation of the input configuration\<close>

lemma get_node_by_name_known:
  "c \<in> set (node_names p) \<Longrightarrow> \<exists>node. map_of (nodes p) c = Some node \<and> get_node_by_name p c = Inr node"
  unfolding node_names_def get_node_by_name_def
  by (cases "map_of (nodes p) c") (auto simp: map_of_eq_None_iff)

lemma validate_edge_inputs_iff:
  "\<forall>item \<in> set items. known_item p item \<Longrightarrow>
     validate_edge_inputs p items =
       (if \<exists>item \<in> set items. bad_item p item then Inl DefinitionError else Inr ())"
proof (induction items)
  case Nil
  then show ?case by simp
next
  case (Cons item items)
  obtain param path where item: "item = (param, path)" by (cases item)
  have IH: "validate_edge_inputs p items =
       (if \<exists>item \<in> set items. bad_item p item then Inl DefinitionError else Inr ())"
    using Cons by simp
  show ?case
  proof (cases "\<exists>c f. split_dot path = [c, f]")
    case True
    then obtain c f where cf: "split_dot path = [c, f]" by blast
    with Cons.prems item have "c \<in> set (node_names p)" by (simp add: known_item_def)
    from get_node_by_name_known [OF this]
    obtain node where node: "map_of (nodes p) c = Some node" "get_node_by_name p c = Inr node"
      by blast
    show ?thesis
      using cf node IH item by (simp add: bad_item_def field_undeclared_def)
  next
    case False
    then have "validate_edge_inputs p (item # items) = validate_edge_inputs p items"
      unfolding item by (auto split: list.splits)
    moreover have "\<not> bad_item p item"
      using False unfolding item bad_item_def by (auto split: list.splits)
    ultimately show ?thesis using IH by simp
  qed
qed

lemma validate_prev_edges_iff:
  "\<forall>e \<in> set es. \<forall>item \<in> set (edge_inputs e). known_item p item \<Longrightarrow>
     validate_prev_edges p es acc =
       (if \<exists>e \<in> set es. \<exists>item \<in> set (edge_inputs e). bad_item p item then Inl DefinitionError
        else Inr (acc @ concat (map (\<lambda>e. map fst (edge_inputs e)) es)))"
proof (induction es arbitrary: acc)
  case Nil
  then show ?case by simp
next
  case (Cons e es)
  have 1: "validate_edge_inputs p (edge_inputs e) =
       (if \<exists>item \<in> set (edge_inputs e). bad_item p item then Inl DefinitionError else Inr ())"
    using Cons.prems by (intro validate_edge_inputs_iff) simp
  have 2: "validate_prev_edges p es acc' =
       (if \<exists>e \<in> set es. \<exists>item \<in> set (edge_inputs e). bad_item p item then Inl DefinitionError
        else Inr (acc' @ concat (map (\<lambda>e. map fst (edge_inputs e)) es)))" for acc'
    using Cons by simp
  show ?case by (simp add: 1 2)
qed

lemma all_known:
  "references_known p \<Longrightarrow> \<forall>e \<in> set (previous_edges p n). \<forall>item \<in> set (edge_inputs e). known_item p item"
  unfolding references_known_def previous_edges_def known_item_def
  by (fastforce split: prod.splits)

lemma validate_task_iff:
  assumes "references_known p"
  shows "validate_inputs_config_for_task p task input_data h =
       (if task_bad_edge p task \<or> task_missing p input_data h task then Inl DefinitionError
        else Inr True)"
proof -
  have 1: "validate_prev_edges p (previous_edges p (name task)) acc =
       (if task_bad_edge p task then Inl DefinitionError
        else Inr (acc @ concat (map (\<lambda>e. map fst (edge_inputs e)) (previous_edges p (name task)))))"
    for acc
    unfolding task_bad_edge_def by (rule validate_prev_edges_iff [OF all_known [OF assms]])
  let ?mandatory = "map fst (filter (\<lambda>(param_name, has_default). \<not> has_default)
                (component_inputs (component task)))"
  let ?actual = "user_keys input_data h (name task) @
                 concat (map (\<lambda>e. map fst (edge_inputs e)) (previous_edges p (name task)))"
  have m: "x \<in> set ?mandatory \<longleftrightarrow> (x, False) \<in> set (component_inputs (component task))" for x
    by force
  have a: "x \<in> set ?actual \<longleftrightarrow>
      x \<in> set (user_keys input_data h (name task)) \<or>
      (\<exists>e \<in> set (previous_edges p (name task)). x \<in> set (map fst (edge_inputs e)))" for x
    by simp
  have "(set ?mandatory - set ?actual \<noteq> {}) = (\<exists>x. x \<in> set ?mandatory \<and> x \<notin> set ?actual)"
    by blast
  also have "\<dots> = (\<exists>x. (x, False) \<in> set (component_inputs (component task)) \<and>
      x \<notin> set (user_keys input_data h (name task)) \<and>
      (\<forall>e \<in> set (previous_edges p (name task)). x \<notin> set (map fst (edge_inputs e))))"
    unfolding m a by blast
  also have "\<dots> = task_missing p input_data h task"
    unfolding task_missing_def by force
  finally have 2: "(set ?mandatory - set ?actual \<noteq> {}) = task_missing p input_data h task" .
  show ?thesis
    unfolding validate_inputs_config_for_task_def Let_def 1
    using 2 by (simp add: user_keys_def)
qed


lemma validate_tasks_iff:
  assumes "references_known p"
  shows "validate_tasks p tasks input_data h =
       (if \<exists>task \<in> set tasks. task_bad_edge p task \<or> task_missing p input_data h task
        then Inl DefinitionError else Inr ())"
  by (induction tasks) (simp_all add: validate_task_iff [OF assms])

lemma bad_edge_iff:
  assumes "wf_pipeline p"
  shows "(\<exists>task \<in> set (map snd (nodes p)). task_bad_edge p task) = undeclared_named_field p"
proof
  assume "\<exists>task \<in> set (map snd (nodes p)). task_bad_edge p task"
  then show "undeclared_named_field p"
    unfolding task_bad_edge_def undeclared_named_field_def previous_edges_def bad_item_def
    by (fastforce split: prod.splits)
next
  assume "undeclared_named_field p"
  then obtain e param path where e: "e \<in> set (edges p)" "(param, path) \<in> set (edge_inputs e)"
    "bad_item p (param, path)"
    unfolding undeclared_named_field_def bad_item_def by auto
  from assms e(1) have "edge_end e \<in> set (node_names p)" by (auto simp: wf_pipeline_def)
  then obtain k node where kn: "(k, node) \<in> set (nodes p)" "k = edge_end e"
    by (auto simp: node_names_def)
  with assms have "name node = edge_end e" by (auto simp: wf_pipeline_def)
  with e have "task_bad_edge p node"
    unfolding task_bad_edge_def previous_edges_def by auto
  with kn(1) show "\<exists>task \<in> set (map snd (nodes p)). task_bad_edge p task" by force
qed

text \<open>
  C7, as the code has it. In a well-formed pipeline whose one-dot references all name
  components of the pipeline, \<^verbatim>\<open>validate_inputs_config\<close> raises the definition error
  exactly when some task has a mandatory input covered neither by a key the user supplied
  for it nor by a parameter mapped on an incoming edge, or some edge maps a one-dot
  reference whose field is not empty and is not among the outputs declared by the
  component the reference names; otherwise it raises nothing.
\<close>

theorem validate_inputs_config_raises_iff:
  assumes "wf_pipeline p" and "references_known p"
  shows "validate_inputs_config p input_data h =
           (if missing_mandatory_input p input_data h \<or> undeclared_named_field p
            then Inl DefinitionError else Inr ())"
proof -
  have "missing_mandatory_input p input_data h =
        (\<exists>task \<in> set (map snd (nodes p)). task_missing p input_data h task)"
    by (simp add: missing_mandatory_input_def task_missing_def)
  then show ?thesis
    unfolding validate_inputs_config_def validate_tasks_iff [OF assms(2)]
      bad_edge_iff [OF assms(1), symmetric]
    by auto
qed


theorem validate_inputs_config_raises_iff_witness:
  "wf_pipeline (p1p2_pipeline [(''x'', ''P1.z'')] []) \<and>
   references_known (p1p2_pipeline [(''x'', ''P1.z'')] []) \<and>
   undeclared_named_field (p1p2_pipeline [(''x'', ''P1.z'')] []) \<and>
   validate_inputs_config (p1p2_pipeline [(''x'', ''P1.z'')] []) [] [] = Inl DefinitionError \<and>
   wf_pipeline (p1p2_pipeline [(''x'', ''P1.y'')] []) \<and>
   references_known (p1p2_pipeline [(''x'', ''P1.y'')] []) \<and>
   validate_inputs_config (p1p2_pipeline [(''x'', ''P1.y'')] []) [] [] = Inr ()"
proof -
  have wf: "wf_pipeline (p1p2_pipeline cfg [])" for cfg
    by (simp add: wf_pipeline_def p1p2_pipeline_def node_names_def task_node_def)
  have k1: "references_known (p1p2_pipeline [(''x'', ''P1.z'')] [])"
    and k2: "references_known (p1p2_pipeline [(''x'', ''P1.y'')] [])"
    by (simp_all add: references_known_def p1p2_pipeline_def node_names_def edge_inputs_def)
  have u1: "undeclared_named_field (p1p2_pipeline [(''x'', ''P1.z'')] [])"
    by (simp add: undeclared_named_field_def field_undeclared_def p1p2_pipeline_def
        edge_inputs_def task_node_def const_component_def)
  have u2: "\<not> undeclared_named_field (p1p2_pipeline [(''x'', ''P1.y'')] [])"
    by (simp add: undeclared_named_field_def field_undeclared_def p1p2_pipeline_def
        edge_inputs_def task_node_def const_component_def)
  have m2: "\<not> missing_mandatory_input (p1p2_pipeline [(''x'', ''P1.y'')] []) [] []"
    by (simp add: missing_mandatory_input_def p1p2_pipeline_def previous_edges_def
        edge_inputs_def task_node_def const_component_def)
  show ?thesis
    using validate_inputs_config_raises_iff [OF wf k1, of "[]" "[]"]
      validate_inputs_config_raises_iff [OF wf k2, of "[]" "[]"] wf k1 k2 u1 u2 m2
    by simp
qed

text \<open>
  C7, as it is stated, fails for a reference with an empty field: the edge from \<open>P1\<close> to
  \<open>P2\<close> maps \<open>x\<close> from \<^verbatim>\<open>"P1."\<close>, the empty field is not an output of \<open>P1\<close>,
  and validation raises nothing.
\<close>

theorem validate_inputs_config_empty_field_counterexample:
  "\<not> (validate_inputs_config (p1p2_pipeline [(''x'', ''P1.'')] []) [] [] = Inl DefinitionError \<longleftrightarrow>
      missing_mandatory_input (p1p2_pipeline [(''x'', ''P1.'')] []) [] [] \<or>
      undeclared_field (p1p2_pipeline [(''x'', ''P1.'')] []))"
  by (simp add: validate_inputs_config_def validate_inputs_config_for_task_def
    p1p2_pipeline_def task_node_def const_component_def previous_edges_def edge_inputs_def
    get_node_by_name_def undeclared_field_def field_undeclared_def)

section \<open>Runs under every schedule\<close>

text \<open>
  \<^verbatim>\<open>execute\<close> is its first part, the call of the component and its second part, one
  after the other.
\<close>

lemma execute_split:
  "execute node kwargs =
     (case execute_begin node of
        Rejected \<Rightarrow> (Inr None, node, [])
      | Raised e \<Rightarrow> (Inl e, node, [])
      | Awaiting n1 \<Rightarrow>
          (case execute_end n1 kwargs of
             (Inl e, n', made) \<Rightarrow> (Inl e, n', map fst made)
           | (Inr res, n', made) \<Rightarrow> (Inr (Some res), n', map fst made)))"
  by (simp add: execute_def execute_begin_def execute_end_def Let_def split: sum.splits)

lemma get_node_by_name_Some:
  "get_node_by_name p n = Inr task \<longleftrightarrow> map_of (nodes p) n = Some task"
  by (simp add: get_node_by_name_def split: option.splits)

lemma wf_name:
  "wf_pipeline p \<Longrightarrow> map_of (nodes p) n = Some task \<Longrightarrow> name task = n"
  by (auto simp: wf_pipeline_def dest!: map_of_SomeD)

lemma wf_dom:
  "map_of (nodes p) n = Some task \<Longrightarrow> n \<in> set (node_names p)"
  by (auto simp: node_names_def dest!: map_of_SomeD intro: rev_image_eqI)

lemma input_config_loop_done:
  "input_config_loop p es cfg = Inr cfg' \<Longrightarrow>
     \<forall>e \<in> set es. status_of p (edge_start e) = Some DONE"
proof (induction es arbitrary: cfg)
  case Nil
  then show ?case by simp
next
  case (Cons e es)
  then show ?case
    by (auto simp: status_of_def read_status_def get_node_by_name_def
        split: sum.splits option.splits if_splits)
qed

lemma keys_alist_update:
  "k \<in> fst ` set al \<Longrightarrow> map fst (AList.update k v al) = map fst al"
  by (induction al) auto

lemma put_node_fields:
  "edges (put_node node p) = edges p" "store (put_node node p) = store p"
  "final_results (put_node node p) = final_results p"
  by (simp_all add: put_node_def)

lemma put_node_names:
  "name node \<in> set (node_names p) \<Longrightarrow> node_names (put_node node p) = node_names p"
  by (simp add: put_node_def node_names_def keys_alist_update)

lemma put_node_status:
  "status_of (put_node node p) = (status_of p)(name node \<mapsto> status node)"
  by (rule ext) (simp add: status_of_def put_node_def update_conv')

lemma put_node_component:
  "component_of (put_node node p) = (component_of p)(name node \<mapsto> component node)"
  by (rule ext) (simp add: component_of_def put_node_def update_conv')

lemma put_node_map_of:
  "map_of (nodes (put_node node p)) = (map_of (nodes p))(name node \<mapsto> node)"
  by (simp add: put_node_def update_conv')

lemma put_status_component:
  assumes "wf_pipeline p" "map_of (nodes p) n = Some task"
  shows "component_of (put_node (task\<lparr>status := x\<rparr>) p) = component_of p"
proof -
  have "name task = n" by (rule wf_name [OF assms])
  then show ?thesis
    using assms(2) by (auto simp: put_node_component component_of_def fun_eq_iff)
qed

lemma wf_put_node:
  assumes "wf_pipeline p" "name node \<in> set (node_names p)"
  shows "wf_pipeline (put_node node p)"
  unfolding wf_pipeline_def
proof (intro conjI)
  show "distinct (node_names (put_node node p))"
    using assms by (simp add: put_node_names wf_pipeline_def)
  show "\<forall>(k, x) \<in> set (nodes (put_node node p)). name x = k"
  proof (clarify)
    fix k x assume kx: "(k, x) \<in> set (nodes (put_node node p))"
    have d: "distinct (map fst (nodes (put_node node p)))"
      using assms put_node_names [OF assms(2)] by (simp add: wf_pipeline_def node_names_def)
    from kx d have "map_of (nodes (put_node node p)) k = Some x" by simp
    then have "((map_of (nodes p))(name node \<mapsto> node)) k = Some x"
      by (simp add: put_node_map_of)
    then show "name x = k"
      using assms(1) by (auto simp: wf_name split: if_splits)
  qed
  show "\<forall>e\<in>set (edges (put_node node p)).
       edge_start e \<in> set (node_names (put_node node p)) \<and>
       edge_end e \<in> set (node_names (put_node node p))"
    using assms by (simp add: put_node_names put_node_fields wf_pipeline_def)
qed

lemma on_task_complete_fields:
  "nodes (on_task_complete task res p) = nodes p"
  "edges (on_task_complete task res p) = edges p"
  "final_results (on_task_complete task res p) =
     (if is_leaf p (name task) then store_add (name task) (res_to_save res) (final_results p)
      else final_results p)"
  by (simp_all add: on_task_complete_def add_result_for_component_def Let_def)

lemma on_task_complete_views:
  "node_names (on_task_complete task res p) = node_names p"
  "status_of (on_task_complete task res p) = status_of p"
  "component_of (on_task_complete task res p) = component_of p"
  "wf_pipeline (on_task_complete task res p) = wf_pipeline p"
  "previous_edges (on_task_complete task res p) = previous_edges p"
  "next_edges (on_task_complete task res p) = next_edges p"
  by (simp_all add: node_names_def status_of_def component_of_def wf_pipeline_def
      previous_edges_def next_edges_def on_task_complete_fields fun_eq_iff)

lemma start_task_effect:
  assumes "start_task c s = Inr s'" and "wf_pipeline (pipeline s)"
  shows "\<exists>task h'. map_of (nodes (pipeline s)) (co_task c) = Some task \<and>
           (\<forall>e \<in> set (previous_edges (pipeline s) (co_task c)).
              status_of (pipeline s) (edge_start e) = Some DONE) \<and>
           ((status task = RUNNING \<or> status task = DONE) \<and> s' = s\<lparr>user_heap := h'\<rparr> \<or>
            status task \<noteq> RUNNING \<and> status task \<noteq> DONE \<and>
            (\<exists>kw. s' = s\<lparr>pipeline := put_node (task\<lparr>status := RUNNING\<rparr>) (pipeline s),
                          user_heap := h', running := running s @ [(c, kw)]\<rparr>))"
proof -
  let ?n = "co_task c"
  from assms(1) obtain task where task: "get_node_by_name (pipeline s) ?n = Inr task"
    by (auto simp: start_task_def split: sum.splits)
  then have m: "map_of (nodes (pipeline s)) ?n = Some task"
    by (simp add: get_node_by_name_Some)
  have nm: "name task = ?n" by (rule wf_name [OF assms(2) m])
  from assms(1) task obtain cfg where cfg: "get_input_config_for_task (pipeline s) task = Inr cfg"
    by (auto simp: start_task_def split: sum.splits)
  then have deps: "\<forall>e \<in> set (previous_edges (pipeline s) ?n).
      status_of (pipeline s) (edge_start e) = Some DONE"
    unfolding get_input_config_for_task_def nm by (rule input_config_loop_done)
  obtain r h' ws where g:
    "get_component_inputs (pipeline s) (name task) cfg (co_data c) (user_heap s) = (r, h', ws)"
    by (metis prod_cases3)
  from assms(1) task cfg g obtain a where a: "r = Inr a"
    by (auto simp: start_task_def split: sum.splits)
  have eb: "execute_begin task =
      (if status task = RUNNING \<or> status task = DONE then Rejected
       else Awaiting (task\<lparr>status := RUNNING\<rparr>))"
    by (auto simp: execute_begin_def set_status_def)
  show ?thesis
  proof (cases "status task = RUNNING \<or> status task = DONE")
    case True
    with assms(1) task cfg g a eb have "s' = s\<lparr>user_heap := h'\<rparr>"
      by (simp add: start_task_def)
    with m deps True show ?thesis by blast
  next
    case False
    with assms(1) task cfg g a eb
    have "s' = s\<lparr>pipeline := put_node (task\<lparr>status := RUNNING\<rparr>) (pipeline s),
                 user_heap := h', running := running s @ [(c, heap_get h' a)]\<rparr>"
      by (simp add: start_task_def)
    with m deps False show ?thesis by blast
  qed
qed


lemma execute_end_cases:
  "(\<exists>msg. run (component task) kw = Inl msg \<and>
      execute_end task kw = (Inl (ComponentFailure msg), task, [(kw, Inl msg)])) \<or>
   (\<exists>out. run (component task) kw = Inr out \<and> status task = DONE \<and>
      execute_end task kw = (Inl StatusUpdateError, task, [(kw, Inr out)])) \<or>
   (\<exists>out. run (component task) kw = Inr out \<and> status task \<noteq> DONE \<and>
      execute_end task kw =
        (Inr \<lparr>rr_status = DONE, rr_result = out\<rparr>, task\<lparr>status := DONE\<rparr>, [(kw, Inr out)]))"
  by (cases "run (component task) kw")
    (auto simp: execute_end_def set_status_def Let_def)

lemma finish_task_effect:
  assumes "finish_task c kw s = Inr s'"
  shows "\<exists>task out ns p2. map_of (nodes (pipeline s)) (co_task c) = Some task \<and>
           status task \<noteq> DONE \<and> run (component task) kw = Inr out \<and>
           p2 = on_task_complete (task\<lparr>status := DONE\<rparr>) \<lparr>rr_status = DONE, rr_result = out\<rparr>
                  (put_node (task\<lparr>status := DONE\<rparr>) (pipeline s)) \<and>
           orchestrator_next p2 (task\<lparr>status := DONE\<rparr>) = Inr ns \<and>
           s' = s\<lparr>pipeline := p2, calls := calls s @ [(c, kw, Inr out)],
                  completed := completed s @ [(c, payload (Inr out))],
                  pending := pending s @ map (\<lambda>node. c\<lparr>co_task := name node\<rparr>) ns\<rparr>"
proof -
  from assms obtain task where task: "get_node_by_name (pipeline s) (co_task c) = Inr task"
    by (auto simp: finish_task_def split: sum.splits)
  then have m: "map_of (nodes (pipeline s)) (co_task c) = Some task"
    by (simp add: get_node_by_name_Some)
  from execute_end_cases [of task kw] assms task
  obtain out where out: "run (component task) kw = Inr out" "status task \<noteq> DONE"
    and ee: "execute_end task kw =
        (Inr \<lparr>rr_status = DONE, rr_result = out\<rparr>, task\<lparr>status := DONE\<rparr>, [(kw, Inr out)])"
    by (auto simp: finish_task_def)
  have pl: "res_to_save \<lparr>rr_status = DONE, rr_result = out\<rparr> = payload (Inr out)"
    by (simp add: res_to_save_def payload_def split: option.splits)
  define p2 where "p2 = on_task_complete (task\<lparr>status := DONE\<rparr>) \<lparr>rr_status = DONE, rr_result = out\<rparr>
                  (put_node (task\<lparr>status := DONE\<rparr>) (pipeline s))"
  from assms task ee obtain ns where ns: "orchestrator_next p2 (task\<lparr>status := DONE\<rparr>) = Inr ns"
    and s': "s' = s\<lparr>pipeline := p2, calls := calls s @ [(c, kw, Inr out)],
                  completed := completed s @ [(c, payload (Inr out))],
                  pending := pending s @ map (\<lambda>node. c\<lparr>co_task := name node\<rparr>) ns\<rparr>"
    by (auto simp: finish_task_def p2_def Let_def pl split: sum.splits)
  show ?thesis
    using m out ns s' unfolding p2_def by blast
qed


lemma next_names:
  assumes "wf_pipeline p" "orchestrator_next p task = Inr ns"
  shows "map name ns = filter (ready p) (map edge_end (next_edges p (name task)))"
proof -
  have ends: "\<forall>e \<in> set (next_edges p (name task)). edge_end e \<in> set (node_names p)"
    using assms(1) by (auto simp: wf_pipeline_def next_edges_def)
  from next_loop_wf [OF assms(1) ends] assms(2)
  have eq: "map Some ns = map (map_of (nodes p)) (filter (ready p) (map edge_end (next_edges p (name task))))"
    by (auto simp: orchestrator_next_def)
  have "map name ns = map (\<lambda>x. name (the x)) (map Some ns)" by (simp add: comp_def)
  also have "\<dots> = map (\<lambda>k. name (the (map_of (nodes p) k)))
      (filter (ready p) (map edge_end (next_edges p (name task))))"
    unfolding eq by (simp add: comp_def)
  also have "\<dots> = map (\<lambda>k. k) (filter (ready p) (map edge_end (next_edges p (name task))))"
  proof (rule map_cong [OF refl])
    fix k assume "k \<in> set (filter (ready p) (map edge_end (next_edges p (name task))))"
    then have "ready p k" by simp
    then obtain node where "map_of (nodes p) k = Some node"
      by (auto simp: ready_def split: option.splits)
    with assms(1) show "name (the (map_of (nodes p) k)) = k" by (simp add: wf_name)
  qed
  finally show ?thesis by simp
qed

lemma next_total:
  assumes "wf_pipeline p"
  shows "\<exists>ns. orchestrator_next p task = Inr ns"
proof -
  have ends: "\<forall>e \<in> set (next_edges p (name task)). edge_end e \<in> set (node_names p)"
    using assms by (auto simp: wf_pipeline_def next_edges_def)
  from next_loop_wf [OF assms ends] show ?thesis
    by (cases "orchestrator_next p task") (auto simp: orchestrator_next_def)
qed

lemma ready_status:
  "ready p k \<longleftrightarrow>
     (\<exists>st. status_of p k = Some st \<and> st \<noteq> RUNNING \<and> st \<noteq> DONE) \<and>
     (\<forall>d \<in> set (previous_edges p k). status_of p (edge_start d) = Some DONE)"
  by (auto simp: ready_def status_of_def split: option.splits)

lemma edges_views:
  "edges p = edges q \<Longrightarrow> previous_edges p = previous_edges q"
  "edges p = edges q \<Longrightarrow> next_edges p = next_edges q"
  "edges p = edges q \<Longrightarrow> is_leaf p = is_leaf q"
  by (simp_all add: previous_edges_def next_edges_def is_leaf_def fun_eq_iff)

lemma map_remove1_distinct:
  "distinct (map f xs) \<Longrightarrow> x \<in> set xs \<Longrightarrow> map f (remove1 x xs) = remove1 (f x) (map f xs)"
proof (induction xs)
  case Nil
  then show ?case by simp
next
  case (Cons a xs)
  show ?case
  proof (cases "a = x")
    case True
    then show ?thesis by simp
  next
    case False
    with Cons.prems have x: "x \<in> set xs" and d: "distinct (map f xs)" and "f a \<notin> f ` set xs"
      by auto
    then have "f a \<noteq> f x" by blast
    with False Cons.IH [OF d x] show ?thesis by simp
  qed
qed

lemma find_SomeD: "find P xs = Some x \<Longrightarrow> x \<in> set xs \<and> P x"
  by (auto simp: find_Some_iff)


lemma status_of_names: "k \<in> set (node_names p) \<Longrightarrow> \<exists>x. status_of p k = Some x"
  unfolding status_of_def node_names_def
  by (cases "map_of (nodes p) k") (auto simp: map_of_eq_None_iff)

lemma saved_by_leaves_snoc:
  "saved_by_leaves p0 (done @ [(n, v)]) =
     (if is_leaf p0 n then store_add n v (saved_by_leaves p0 done) else saved_by_leaves p0 done)"
  by (simp add: saved_by_leaves_def)

text \<open>The invariant of a run, as a rule to show it and as the facts it gives.\<close>

lemma run_invI:
  assumes "wf_pipeline (pipeline s)" "edges (pipeline s) = edges p0"
    "node_names (pipeline s) = node_names p0" "component_of (pipeline s) = component_of p0"
    "\<And>c. c \<in> set (pending s) \<Longrightarrow> own r d c"
    "\<And>c. c \<in> fst ` set (running s) \<Longrightarrow> own r d c"
    "distinct (running_tasks s)"
    "\<And>n. n \<in> set (running_tasks s) \<longleftrightarrow> status_of (pipeline s) n = Some RUNNING"
    "\<And>n. count_list (returned_tasks s) n =
          (if status_of (pipeline s) n = Some DONE then 1 else 0)"
    "\<And>n. active (pipeline s) n \<Longrightarrow> parents_done p0 (pipeline s) n"
    "\<And>n. n \<in> set (node_names p0) \<Longrightarrow> \<not> active (pipeline s) n \<Longrightarrow>
         n \<in> set (pending_tasks s) \<or> \<not> parents_done p0 (pipeline s) n"
    "final_results (pipeline s) = saved_by_leaves p0 (completed_tasks s)"
    "\<And>entry. entry \<in> set (calls s) \<Longrightarrow> honest_call p0 entry"
    "completed s = map (\<lambda>(c, kwargs, r). (c, payload r)) (calls s)"
    "\<And>c. c \<in> set (callers s) \<Longrightarrow> own r d c"
  shows "run_inv p0 r d s"
  unfolding run_inv_def
  by (intro conjI ballI allI impI; (rule assms; assumption))

lemma run_invD:
  assumes "run_inv p0 r d s"
  shows "wf_pipeline (pipeline s)" "edges (pipeline s) = edges p0"
    "node_names (pipeline s) = node_names p0" "component_of (pipeline s) = component_of p0"
    "\<And>c. c \<in> set (pending s) \<Longrightarrow> own r d c"
    "\<And>c. c \<in> fst ` set (running s) \<Longrightarrow> own r d c"
    "distinct (running_tasks s)"
    "\<And>n. n \<in> set (running_tasks s) \<longleftrightarrow> status_of (pipeline s) n = Some RUNNING"
    "\<And>n. count_list (returned_tasks s) n =
          (if status_of (pipeline s) n = Some DONE then 1 else 0)"
    "\<And>n. active (pipeline s) n \<Longrightarrow> parents_done p0 (pipeline s) n"
    "\<And>n. n \<in> set (node_names p0) \<Longrightarrow> \<not> active (pipeline s) n \<Longrightarrow>
         n \<in> set (pending_tasks s) \<or> \<not> parents_done p0 (pipeline s) n"
    "final_results (pipeline s) = saved_by_leaves p0 (completed_tasks s)"
    "\<And>entry. entry \<in> set (calls s) \<Longrightarrow> honest_call p0 entry"
    "completed s = map (\<lambda>(c, kwargs, r). (c, payload r)) (calls s)"
    "\<And>c. c \<in> set (callers s) \<Longrightarrow> own r d c"
proof -
  note a = assms [unfolded run_inv_def]
  show "wf_pipeline (pipeline s)" "edges (pipeline s) = edges p0"
    "node_names (pipeline s) = node_names p0" "component_of (pipeline s) = component_of p0"
    "distinct (running_tasks s)"
    "final_results (pipeline s) = saved_by_leaves p0 (completed_tasks s)"
    "completed s = map (\<lambda>(c, kwargs, r). (c, payload r)) (calls s)"
    using a by simp_all
  from a have 5: "\<forall>c \<in> set (pending s). own r d c" by (elim conjE)
  from a have 6: "\<forall>c \<in> fst ` set (running s). own r d c" by (elim conjE)
  from a have 8: "\<forall>n. n \<in> set (running_tasks s) \<longleftrightarrow> status_of (pipeline s) n = Some RUNNING"
    by (elim conjE)
  from a have 9: "\<forall>n. count_list (returned_tasks s) n =
            (if status_of (pipeline s) n = Some DONE then 1 else 0)"
    by (elim conjE)
  from a have 10: "\<forall>n. active (pipeline s) n \<longrightarrow> parents_done p0 (pipeline s) n"
    by (elim conjE)
  from a have 11: "\<forall>n \<in> set (node_names p0). \<not> active (pipeline s) n \<longrightarrow>
         n \<in> set (pending_tasks s) \<or> \<not> parents_done p0 (pipeline s) n"
    by (elim conjE)
  from a have 13: "\<forall>entry \<in> set (calls s). honest_call p0 entry" by (elim conjE)
  from a have 15: "\<forall>c \<in> set (callers s). own r d c" by (elim conjE)
  show "\<And>c. c \<in> set (pending s) \<Longrightarrow> own r d c" using 5 by (rule bspec)
  show "\<And>c. c \<in> fst ` set (running s) \<Longrightarrow> own r d c" using 6 by (rule bspec)
  show "\<And>n. n \<in> set (running_tasks s) \<longleftrightarrow> status_of (pipeline s) n = Some RUNNING"
    using 8 by (rule spec)
  show "\<And>n. count_list (returned_tasks s) n =
          (if status_of (pipeline s) n = Some DONE then 1 else 0)"
    using 9 by (rule spec)
  show "\<And>n. active (pipeline s) n \<Longrightarrow> parents_done p0 (pipeline s) n"
    using 10 by blast
  show "\<And>n. n \<in> set (node_names p0) \<Longrightarrow> \<not> active (pipeline s) n \<Longrightarrow>
         n \<in> set (pending_tasks s) \<or> \<not> parents_done p0 (pipeline s) n"
    using 11 by blast
  show "\<And>entry. entry \<in> set (calls s) \<Longrightarrow> honest_call p0 entry"
    using 13 by (rule bspec)
  show "\<And>c. c \<in> set (callers s) \<Longrightarrow> own r d c" using 15 by (rule bspec)
qed

lemma pending_tasks_remove1:
  assumes "k \<in> set (map co_task xs)" "k \<noteq> co_task c"
  shows "k \<in> set (map co_task (remove1 c xs))"
proof -
  from assms(1) obtain c' where c': "c' \<in> set xs" "co_task c' = k" by auto
  with assms(2) have "c' \<noteq> c" by auto
  with c'(1) have "c' \<in> set (remove1 c xs)" by simp
  with c'(2) show ?thesis by force
qed

lemma run_inv_start_rejected:
  assumes inv: "run_inv p0 r d s" and act: "active (pipeline s) (co_task c)"
    and s': "pipeline s' = pipeline s" "pending s' = remove1 c (pending s)"
      "running s' = running s" "calls s' = calls s" "completed s' = completed s"
  shows "run_inv p0 r d s'"
proof (rule run_invI)
  note D = run_invD [OF inv]
  show "wf_pipeline (pipeline s')" "edges (pipeline s') = edges p0"
    "node_names (pipeline s') = node_names p0" "component_of (pipeline s') = component_of p0"
    "distinct (running_tasks s')"
    "final_results (pipeline s') = saved_by_leaves p0 (completed_tasks s')"
    "completed s' = map (\<lambda>(c, kwargs, r). (c, payload r)) (calls s')"
    using D(1-4,7,12,14) by (simp_all add: s' running_tasks_def completed_tasks_def)
  show "own r d c'" if "c' \<in> set (pending s')" for c'
    using that D(5) [of c'] by (auto simp: s' dest: notin_set_remove1)
  show "own r d c'" if "c' \<in> fst ` set (running s')" for c'
    using that D(6) [of c'] by (simp add: s')
  show "n \<in> set (running_tasks s') \<longleftrightarrow> status_of (pipeline s') n = Some RUNNING" for n
    using D(8) [of n] by (simp add: s' running_tasks_def)
  show "count_list (returned_tasks s') n =
          (if status_of (pipeline s') n = Some DONE then 1 else 0)" for n
    using D(9) [of n] by (simp add: s' returned_tasks_def)
  show "parents_done p0 (pipeline s') n" if "active (pipeline s') n" for n
    using that D(10) [of n] by (simp add: s')
  show "honest_call p0 entry" if "entry \<in> set (calls s')" for entry
    using that D(13) [of entry] by (simp add: s')
  show "own r d c'" if "c' \<in> set (callers s')" for c'
    using that D(15) [of c'] by (simp add: s' callers_def)
  show "n \<in> set (pending_tasks s') \<or> \<not> parents_done p0 (pipeline s') n"
    if k: "n \<in> set (node_names p0)" "\<not> active (pipeline s') n" for n
  proof -
    from k(2) act have ne: "n \<noteq> co_task c" by (auto simp: s')
    from D(11) [of n] k have "n \<in> set (pending_tasks s) \<or> \<not> parents_done p0 (pipeline s) n"
      by (simp add: s')
    then show ?thesis
    proof
      assume "n \<in> set (pending_tasks s)"
      then have "n \<in> set (map co_task (remove1 c (pending s)))"
        unfolding pending_tasks_def using ne by (rule pending_tasks_remove1)
      then show ?thesis by (simp add: pending_tasks_def s')
    next
      assume "\<not> parents_done p0 (pipeline s) n"
      then show ?thesis by (simp add: s')
    qed
  qed
qed

lemma run_inv_start_accepted:
  assumes inv: "run_inv p0 r d s" and task: "map_of (nodes (pipeline s)) (co_task c) = Some task"
    and nact: "status task \<noteq> RUNNING" "status task \<noteq> DONE"
    and deps: "\<forall>e \<in> set (previous_edges (pipeline s) (co_task c)).
                 status_of (pipeline s) (edge_start e) = Some DONE"
    and c: "c \<in> set (pending s)"
    and s': "pipeline s' = put_node (task\<lparr>status := RUNNING\<rparr>) (pipeline s)"
      "pending s' = remove1 c (pending s)" "running s' = running s @ [(c, kw)]"
      "calls s' = calls s" "completed s' = completed s"
  shows "run_inv p0 r d s'"
proof -
  let ?n = "co_task c"
  let ?p = "pipeline s"
  let ?p1 = "put_node (task\<lparr>status := RUNNING\<rparr>) ?p"
  note D = run_invD [OF inv]
  note wf = D(1) and ed = D(2) and nn = D(3)
  have nm: "name task = ?n" by (rule wf_name [OF wf task])
  have dom: "?n \<in> set (node_names ?p)" by (rule wf_dom [OF task])
  have stn: "status_of ?p ?n = Some (status task)" by (simp add: status_of_def task)
  have nactive: "\<not> active ?p ?n" using nact by (simp add: active_def stn)
  have st1: "status_of ?p1 = (status_of ?p)(?n \<mapsto> RUNNING)"
    by (simp add: put_node_status nm)
  have act1: "active ?p1 k \<longleftrightarrow> k = ?n \<or> active ?p k" for k
    by (simp add: active_def st1)
  have pe: "previous_edges ?p = previous_edges p0" by (rule edges_views(1) [OF ed])
  have pd_n: "parents_done p0 ?p ?n" using deps by (simp add: parents_done_def pe)
  have not_parent: "edge_start e \<noteq> ?n" if "status_of ?p (edge_start e) = Some DONE" for e
    using that nact stn by auto
  have pd1: "parents_done p0 ?p1 k" if "parents_done p0 ?p k" for k
    using that not_parent by (auto simp: parents_done_def st1)
  have pd1': "parents_done p0 ?p k" if "parents_done p0 ?p1 k" for k
    using that by (auto simp: parents_done_def st1 split: if_splits)
  have nrun: "?n \<notin> set (running_tasks s)" using D(8) [of ?n] nact by (simp add: stn)
  have rt: "running_tasks s' = running_tasks s @ [?n]" by (simp add: running_tasks_def s')
  show ?thesis
  proof (rule run_invI)
    show "wf_pipeline (pipeline s')"
      unfolding s' using wf dom by (intro wf_put_node) (simp_all add: nm)
    show "edges (pipeline s') = edges p0" by (simp add: s' put_node_fields ed)
    show "node_names (pipeline s') = node_names p0"
      using dom by (simp add: s' put_node_names nm nn)
    show "component_of (pipeline s') = component_of p0"
      unfolding s' put_status_component [OF wf task] by (rule D(4))
    show "own r d c'" if "c' \<in> set (pending s')" for c'
      using that D(5) [of c'] by (auto simp: s' dest: notin_set_remove1)
    show "own r d c'" if "c' \<in> fst ` set (running s')" for c'
      using that D(6) [of c'] D(5) [OF c] by (auto simp: s')
    show "distinct (running_tasks s')" using D(7) nrun by (simp add: rt)
    show "k \<in> set (running_tasks s') \<longleftrightarrow> status_of (pipeline s') k = Some RUNNING" for k
      using D(8) [of k] by (auto simp: rt s' st1)
    show "count_list (returned_tasks s') k =
          (if status_of (pipeline s') k = Some DONE then 1 else 0)" for k
      using D(9) [of k] nact stn by (auto simp: returned_tasks_def s' st1)
    show "parents_done p0 (pipeline s') k" if "active (pipeline s') k" for k
      using that D(10) [of k] pd_n pd1 by (auto simp: s' act1)
    show "k \<in> set (pending_tasks s') \<or> \<not> parents_done p0 (pipeline s') k"
      if k: "k \<in> set (node_names p0)" "\<not> active (pipeline s') k" for k
    proof -
      from k(2) have kn: "k \<noteq> ?n" and na: "\<not> active ?p k" by (auto simp: s' act1)
      from D(11) [OF k(1) na] show ?thesis
      proof
        assume "k \<in> set (pending_tasks s)"
        then have "k \<in> set (map co_task (remove1 c (pending s)))"
          unfolding pending_tasks_def using kn by (rule pending_tasks_remove1)
        then show ?thesis by (simp add: pending_tasks_def s')
      next
        assume "\<not> parents_done p0 ?p k"
        with pd1' show ?thesis unfolding s' by blast
      qed
    qed
    show "final_results (pipeline s') = saved_by_leaves p0 (completed_tasks s')"
      using D(12) by (simp add: s' put_node_fields completed_tasks_def)
    show "honest_call p0 entry" if "entry \<in> set (calls s')" for entry
      using that D(13) [of entry] by (simp add: s')
    show "own r d c'" if "c' \<in> set (callers s')" for c'
      using that D(15) [of c'] by (simp add: s' callers_def)
    show "completed s' = map (\<lambda>(c, kwargs, r). (c, payload r)) (calls s')"
      using D(14) by (simp add: s')
  qed
qed

lemma run_inv_finish:
  assumes inv: "run_inv p0 r d s" and ckw: "(c, kw) \<in> set (running s)"
    and task: "map_of (nodes (pipeline s)) (co_task c) = Some task"
    and out: "run (component task) kw = Inr out"
    and p2: "p2 = on_task_complete (task\<lparr>status := DONE\<rparr>) \<lparr>rr_status = DONE, rr_result = out\<rparr>
                    (put_node (task\<lparr>status := DONE\<rparr>) (pipeline s))"
    and ns: "orchestrator_next p2 (task\<lparr>status := DONE\<rparr>) = Inr ns"
    and s': "pipeline s' = p2" "calls s' = calls s @ [(c, kw, Inr out)]"
      "completed s' = completed s @ [(c, payload (Inr out))]"
      "pending s' = pending s @ map (\<lambda>node. c\<lparr>co_task := name node\<rparr>) ns"
      "running s' = remove1 (c, kw) (running s)"
  shows "run_inv p0 r d s'"
proof -
  let ?n = "co_task c"
  let ?p = "pipeline s"
  let ?n2 = "task\<lparr>status := DONE\<rparr>"
  let ?p1 = "put_node ?n2 ?p"
  note D = run_invD [OF inv]
  note wf = D(1) and ed = D(2) and nn = D(3)
  have nm: "name task = ?n" by (rule wf_name [OF wf task])
  have dom: "?n \<in> set (node_names ?p)" by (rule wf_dom [OF task])
  have own_c: "own r d c" using D(6) [of c] ckw by force
  have inrun: "?n \<in> set (running_tasks s)"
    unfolding running_tasks_def using ckw by force
  then have stn: "status_of ?p ?n = Some RUNNING" by (simp add: D(8))
  have st2: "status_of p2 = (status_of ?p)(?n \<mapsto> DONE)"
    by (simp add: p2 on_task_complete_views put_node_status nm)
  have act2: "active p2 k \<longleftrightarrow> active ?p k" for k
    using stn by (auto simp: active_def st2)
  have wf2: "wf_pipeline p2"
    unfolding p2 on_task_complete_views using wf dom by (intro wf_put_node) (simp_all add: nm)
  have ed2: "edges p2 = edges p0" by (simp add: p2 on_task_complete_fields put_node_fields ed)
  have nn2: "node_names p2 = node_names p0"
    using dom by (simp add: p2 on_task_complete_views put_node_names nm nn)
  have rt: "running_tasks s' = remove1 ?n (running_tasks s)"
    unfolding running_tasks_def s'
    using map_remove1_distinct [OF D(7) [unfolded running_tasks_def] ckw] by simp
  have rts: "set (running_tasks s') = set (running_tasks s) - {?n}"
    unfolding rt using D(7) by (rule set_remove1_eq)
  have pt: "pending_tasks s' = pending_tasks s @ map name ns"
    by (simp add: pending_tasks_def s' comp_def)
  have pd2: "parents_done p0 p2 k" if "parents_done p0 ?p k" for k
    using that by (auto simp: parents_done_def st2)
  have pe2: "previous_edges p2 = previous_edges p0" by (rule edges_views(1) [OF ed2])
  have names: "map name ns = filter (ready p2) (map edge_end (next_edges p2 ?n))"
    using next_names [OF wf2 ns] by (simp add: nm)
  have leaf: "is_leaf ?p1 = is_leaf p0"
    by (rule edges_views(3)) (simp add: put_node_fields ed)
  have pl: "res_to_save \<lparr>rr_status = DONE, rr_result = out\<rparr> = payload (Inr out)"
    by (simp add: res_to_save_def payload_def split: option.splits)
  show ?thesis
  proof (rule run_invI)
    show "wf_pipeline (pipeline s')" "edges (pipeline s') = edges p0"
      "node_names (pipeline s') = node_names p0"
      using wf2 ed2 nn2 by (simp_all add: s')
    show "component_of (pipeline s') = component_of p0"
      unfolding s' p2 on_task_complete_views put_status_component [OF wf task] by (rule D(4))
    show "own r d c'" if "c' \<in> set (pending s')" for c'
      using that D(5) [of c'] own_c by (auto simp: s' own_def)
    show "own r d c'" if "c' \<in> fst ` set (running s')" for c'
    proof -
      from that obtain kw' where "(c', kw') \<in> set (remove1 (c, kw) (running s))"
        by (auto simp: s')
      then have "(c', kw') \<in> set (running s)"
        using set_remove1_subset [of "(c, kw)" "running s"] by blast
      then show ?thesis using D(6) [of c'] by force
    qed
    show "distinct (running_tasks s')" unfolding rt using D(7) by (rule distinct_remove1)
    show "k \<in> set (running_tasks s') \<longleftrightarrow> status_of (pipeline s') k = Some RUNNING" for k
      using D(8) [of k] unfolding rts by (auto simp: s' st2)
    show "count_list (returned_tasks s') k =
          (if status_of (pipeline s') k = Some DONE then 1 else 0)" for k
      using D(9) [of k] stn by (auto simp: returned_tasks_def s' st2)
    show "parents_done p0 (pipeline s') k" if "active (pipeline s') k" for k
      using that D(10) [of k] pd2 by (simp add: s' act2)
    show "k \<in> set (pending_tasks s') \<or> \<not> parents_done p0 (pipeline s') k"
      if k: "k \<in> set (node_names p0)" "\<not> active (pipeline s') k" for k
    proof (cases "parents_done p0 p2 k")
      case False
      then show ?thesis by (simp add: s')
    next
      case True
      from k(2) have na: "\<not> active ?p k" by (simp add: s' act2)
      from D(11) [OF k(1) na] show ?thesis
      proof
        assume "k \<in> set (pending_tasks s)"
        then show ?thesis by (simp add: pt)
      next
        assume "\<not> parents_done p0 ?p k"
        then obtain e where e: "e \<in> set (previous_edges p0 k)"
          "status_of ?p (edge_start e) \<noteq> Some DONE"
          by (auto simp: parents_done_def)
        from True e(1) have "status_of p2 (edge_start e) = Some DONE"
          by (simp add: parents_done_def)
        with e(2) have "edge_start e = ?n" by (auto simp: st2 split: if_splits)
        with e(1) have "e \<in> set (next_edges p2 ?n)" "edge_end e = k"
          by (auto simp: previous_edges_def next_edges_def ed2)
        then have child: "k \<in> set (map edge_end (next_edges p2 ?n))" by force
        from status_of_names [of k p2] k(1) obtain x where x: "status_of p2 k = Some x"
          by (auto simp: nn2)
        with k(2) have "x \<noteq> RUNNING" "x \<noteq> DONE" by (auto simp: active_def s')
        with x True have "ready p2 k"
          by (simp add: ready_status pe2 parents_done_def)
        with child have "k \<in> set (map name ns)" by (simp add: names)
        then show ?thesis by (simp add: pt)
      qed
    qed
    show "final_results (pipeline s') = saved_by_leaves p0 (completed_tasks s')"
      using D(12)
      by (simp add: s' p2 on_task_complete_fields put_node_fields completed_tasks_def
          saved_by_leaves_snoc leaf nm pl)
    show "honest_call p0 entry" if "entry \<in> set (calls s')" for entry
    proof (cases "entry \<in> set (calls s)")
      case True
      then show ?thesis by (rule D(13))
    next
      case False
      with that have entry: "entry = (c, kw, Inr out)" by (simp add: s')
      have "component_of p0 ?n = Some (component task)"
        unfolding D(4) [symmetric] by (simp add: component_of_def task)
      then show ?thesis by (simp add: honest_call_def entry out)
    qed
    show "own r d c'" if "c' \<in> set (callers s')" for c'
    proof -
      from that have "c' = c \<or> c' \<in> set (callers s)" by (auto simp: s' callers_def)
      with D(15) [of c'] own_c show ?thesis by blast
    qed
    show "completed s' = map (\<lambda>(c, kwargs, r). (c, payload r)) (calls s')"
      using D(14) by (simp add: s')
  qed
qed

lemma step_own:
  assumes "run_inv p0 r d s" and "step ev s = Some x"
  shows "event_run ev = r"
proof (cases ev)
  case (Start q n)
  with assms(2) obtain c where "find (co_is q n) (pending s) = Some c"
    by (auto simp: step_def split: option.splits)
  then have "c \<in> set (pending s)" "co_run c = q" by (auto dest: find_SomeD simp: co_is_def)
  with run_invD(5) [OF assms(1), of c] Start show ?thesis by (simp add: own_def)
next
  case (Finish q n)
  with assms(2) obtain c kw where "find (\<lambda>(c, kwargs). co_is q n c) (running s) = Some (c, kw)"
    by (auto simp: step_def split: option.splits)
  then have "(c, kw) \<in> set (running s)" "co_run c = q"
    by (auto dest: find_SomeD simp: co_is_def)
  with run_invD(6) [OF assms(1), of c] Finish show ?thesis by (force simp: own_def)
qed

lemma run_inv_step:
  assumes inv: "run_inv p0 r d s" and st: "step ev s = Some (Inr s')"
  shows "run_inv p0 r d s'"
proof (cases ev)
  case (Start q n)
  from st Start obtain c where f: "find (co_is q n) (pending s) = Some c"
    and start: "start_task c (s\<lparr>pending := remove1 c (pending s)\<rparr>) = Inr s'"
    by (auto simp: step_def split: option.splits)
  let ?s0 = "s\<lparr>pending := remove1 c (pending s)\<rparr>"
  from f have c: "c \<in> set (pending s)" by (auto dest: find_SomeD)
  have wf0: "wf_pipeline (pipeline ?s0)" using run_invD(1) [OF inv] by simp
  from start_task_effect [OF start wf0]
  obtain task h' where task: "map_of (nodes (pipeline s)) (co_task c) = Some task"
    and deps: "\<forall>e \<in> set (previous_edges (pipeline s) (co_task c)).
                 status_of (pipeline s) (edge_start e) = Some DONE"
    and cases: "(status task = RUNNING \<or> status task = DONE) \<and> s' = ?s0\<lparr>user_heap := h'\<rparr> \<or>
            status task \<noteq> RUNNING \<and> status task \<noteq> DONE \<and>
            (\<exists>kw. s' = ?s0\<lparr>pipeline := put_node (task\<lparr>status := RUNNING\<rparr>) (pipeline ?s0),
                          user_heap := h', running := running ?s0 @ [(c, kw)]\<rparr>)"
    by auto
  from cases show ?thesis
  proof
    assume a: "(status task = RUNNING \<or> status task = DONE) \<and> s' = ?s0\<lparr>user_heap := h'\<rparr>"
    then have act: "active (pipeline s) (co_task c)" by (auto simp: active_def status_of_def task)
    from a show ?thesis by (intro run_inv_start_rejected [OF inv act]) simp_all
  next
    assume a: "status task \<noteq> RUNNING \<and> status task \<noteq> DONE \<and>
            (\<exists>kw. s' = ?s0\<lparr>pipeline := put_node (task\<lparr>status := RUNNING\<rparr>) (pipeline ?s0),
                          user_heap := h', running := running ?s0 @ [(c, kw)]\<rparr>)"
    then obtain kw where s': "s' = ?s0\<lparr>pipeline := put_node (task\<lparr>status := RUNNING\<rparr>) (pipeline ?s0),
                          user_heap := h', running := running ?s0 @ [(c, kw)]\<rparr>" by blast
    from a have nact: "status task \<noteq> RUNNING" "status task \<noteq> DONE" by simp_all
    show ?thesis
      by (rule run_inv_start_accepted [OF inv task nact deps c, where kw = kw])
        (simp_all add: s')
  qed
next
  case (Finish q n)
  from st Finish obtain c kw where f: "find (\<lambda>(c, kwargs). co_is q n c) (running s) = Some (c, kw)"
    and fin: "finish_task c kw (s\<lparr>running := remove1 (c, kw) (running s)\<rparr>) = Inr s'"
    by (auto simp: step_def split: option.splits)
  let ?s0 = "s\<lparr>running := remove1 (c, kw) (running s)\<rparr>"
  from f have ckw: "(c, kw) \<in> set (running s)" by (auto dest: find_SomeD)
  from finish_task_effect [OF fin]
  obtain task out ns p2 where task: "map_of (nodes (pipeline s)) (co_task c) = Some task"
    and out: "run (component task) kw = Inr out"
    and p2: "p2 = on_task_complete (task\<lparr>status := DONE\<rparr>) \<lparr>rr_status = DONE, rr_result = out\<rparr>
                  (put_node (task\<lparr>status := DONE\<rparr>) (pipeline s))"
    and ns: "orchestrator_next p2 (task\<lparr>status := DONE\<rparr>) = Inr ns"
    and s': "s' = ?s0\<lparr>pipeline := p2, calls := calls ?s0 @ [(c, kw, Inr out)],
                  completed := completed ?s0 @ [(c, payload (Inr out))],
                  pending := pending ?s0 @ map (\<lambda>node. c\<lparr>co_task := name node\<rparr>) ns\<rparr>"
    by auto
  show ?thesis
    by (rule run_inv_finish [OF inv ckw task out p2 ns]) (simp_all add: s')
qed



lemma run_inv_exec:
  "run_inv p0 r d s \<Longrightarrow> exec r evs s = Some (Inr s') \<Longrightarrow> run_inv p0 r d s'"
proof (induction evs arbitrary: s)
  case Nil
  then show ?case by simp
next
  case (Cons ev evs)
  from Cons.prems(2) obtain x where x: "step ev s = Some x"
    by (auto split: option.splits)
  have own: "event_run ev = r" by (rule step_own [OF Cons.prems(1) x])
  from Cons.prems(2) x own obtain s1 where s1: "step ev s = Some (Inr s1)"
    and rest: "exec r evs s1 = Some (Inr s')"
    by (auto split: sum.splits)
  from Cons.IH [OF run_inv_step [OF Cons.prems(1) s1] rest] show ?case .
qed



lemma map_of_reinitialize:
  "map_of (map (\<lambda>(k, task). (k, reinitialize_node task)) xs) n =
     map_option reinitialize_node (map_of xs n)"
  by (induction xs) auto

lemma reinitialize_views:
  "edges (reinitialize p) = edges p" "node_names (reinitialize p) = node_names p"
  "final_results (reinitialize p) = []" "store (reinitialize p) = []"
  "map_of (nodes (reinitialize p)) n = map_option reinitialize_node (map_of (nodes p) n)"
  by (simp_all add: reinitialize_def node_names_def store_empty_def comp_def case_prod_unfold
      map_of_reinitialize [unfolded case_prod_unfold])

lemma status_of_reinitialize:
  "status_of (reinitialize p) n = (if n \<in> set (node_names p) then Some SCHEDULED else None)"
proof (cases "map_of (nodes p) n")
  case None
  then show ?thesis
    by (simp add: status_of_def reinitialize_views node_names_def map_of_eq_None_iff)
next
  case (Some task)
  then show ?thesis
    using wf_dom [OF Some] by (simp add: status_of_def reinitialize_views reinitialize_node_def)
qed

lemma component_of_reinitialize: "component_of (reinitialize p) = component_of p"
proof
  fix n show "component_of (reinitialize p) n = component_of p n"
    by (cases "map_of (nodes p) n")
      (simp_all add: component_of_def reinitialize_views reinitialize_node_def)
qed

lemma wf_reinitialize: "wf_pipeline p \<Longrightarrow> wf_pipeline (reinitialize p)"
  unfolding wf_pipeline_def reinitialize_views
  by (auto simp: reinitialize_def reinitialize_node_def)

lemma root_pending:
  assumes "wf_pipeline p" "n \<in> set (node_names p)" "previous_edges p n = []"
  shows "n \<in> set (map name (roots p))"
proof -
  from assms(2) obtain task where t: "(n, task) \<in> set (nodes p)"
    by (auto simp: node_names_def)
  with assms(1) have "name task = n" by (auto simp: wf_pipeline_def)
  with t assms(3) have "task \<in> set (roots p)" by (force simp: roots_def)
  with \<open>name task = n\<close> show ?thesis by force
qed

lemma next_run_idle: "idle s \<Longrightarrow> next_run s = 1"
  by (simp add: idle_def next_run_def)

lemma run_inv_begin:
  assumes wf: "wf_pipeline (pipeline s0)" and idle: "idle s0"
  shows "run_inv (pipeline s0) (next_run s0) d (begin_run d s0)"
proof (rule run_invI)
  let ?p = "pipeline s0"
  let ?q = "reinitialize ?p"
  let ?s = "begin_run d s0"
  have pl: "pipeline ?s = ?q" by (simp add: begin_run_def)
  have pe: "pending ?s =
      map (\<lambda>root. \<lparr>co_run = next_run s0, co_data = d, co_task = name root\<rparr>) (roots ?q)"
    using idle by (simp add: begin_run_def idle_def)
  have ru: "running ?s = []" using idle by (simp add: begin_run_def idle_def)
  have lg: "calls ?s = []" "completed ?s = []" by (simp_all add: begin_run_def)
  have nact: "\<not> active ?q n" for n
    by (simp add: active_def status_of_reinitialize)
  have pq: "previous_edges ?q = previous_edges ?p"
    by (rule edges_views(1)) (simp add: reinitialize_views)
  show "wf_pipeline (pipeline ?s)" unfolding pl by (rule wf_reinitialize [OF wf])
  show "edges (pipeline ?s) = edges ?p" "node_names (pipeline ?s) = node_names ?p"
    "component_of (pipeline ?s) = component_of ?p"
    by (simp_all add: pl reinitialize_views component_of_reinitialize)
  show "own (next_run s0) d c" if "c \<in> set (pending ?s)" for c
    using that by (auto simp: pe own_def)
  show "own (next_run s0) d c" if "c \<in> fst ` set (running ?s)" for c
    using that by (simp add: ru)
  show "distinct (running_tasks ?s)" by (simp add: running_tasks_def ru)
  show "n \<in> set (running_tasks ?s) \<longleftrightarrow> status_of (pipeline ?s) n = Some RUNNING" for n
    by (simp add: running_tasks_def ru pl status_of_reinitialize)
  show "count_list (returned_tasks ?s) n =
        (if status_of (pipeline ?s) n = Some DONE then 1 else 0)" for n
    by (simp add: returned_tasks_def lg pl status_of_reinitialize)
  show "parents_done ?p (pipeline ?s) n" if "active (pipeline ?s) n" for n
    using that nact by (simp add: pl)
  show "final_results (pipeline ?s) = saved_by_leaves ?p (completed_tasks ?s)"
    by (simp add: pl reinitialize_views completed_tasks_def lg saved_by_leaves_def)
  show "honest_call ?p entry" if "entry \<in> set (calls ?s)" for entry
    using that by (simp add: lg)
  show "own (next_run s0) d c" if "c \<in> set (callers ?s)" for c
    using that by (simp add: lg callers_def)
  show "completed ?s = map (\<lambda>(c, kwargs, r). (c, payload r)) (calls ?s)"
    by (simp add: lg)
  show "n \<in> set (pending_tasks ?s) \<or> \<not> parents_done ?p (pipeline ?s) n"
    if n: "n \<in> set (node_names ?p)" for n
  proof (cases "previous_edges ?p n = []")
    case True
    have "n \<in> set (map name (roots ?q))"
      by (rule root_pending [OF wf_reinitialize [OF wf]]) (simp_all add: reinitialize_views n pq True)
    then show ?thesis by (simp add: pending_tasks_def pe comp_def)
  next
    case False
    then obtain e where "e \<in> set (previous_edges ?p n)" by (cases "previous_edges ?p n") auto
    then have "\<not> parents_done ?p ?q n"
      by (auto simp: parents_done_def status_of_reinitialize)
    then show ?thesis by (simp add: pl)
  qed
qed

lemma run_inv_reachable:
  assumes "wf_pipeline (pipeline s0)" "idle s0"
    and "exec (next_run s0) evs (begin_run d s0) = Some (Inr s)"
  shows "run_inv (pipeline s0) (next_run s0) d s"
  by (rule run_inv_exec [OF run_inv_begin [OF assms(1,2)] assms(3)])







section \<open>The consumer of two roots\<close>















section \<open>The result of a run\<close>

















end
